theory Spec2Isabelle
  imports Complex_Main "HOL-Library.Monad_Syntax"
begin

section \<open>Machine arithmetic\<close>

text \<open>
  The kernels are C++ functions over \<^verbatim>\<open>int\<close> (32 bits) and \<^verbatim>\<open>long long\<close>
  (64 bits). A machine integer is modelled by the mathematical integer it denotes, and
  every arithmetic result is reduced to the two's complement range of its type:
  \<open>wrap32\<close> for \<^verbatim>\<open>int\<close>, \<open>wrap64\<close> for \<^verbatim>\<open>long long\<close>. Inside the range nothing
  changes. Outside it the language leaves signed overflow undefined; the model takes the
  wrapped value, which is what the compiled arithmetic produces, and every property
  that depends on it says so.

  A call that gives no value (it runs forever, throws, or reads or writes outside a
  vector) is \<open>None\<close>. The depth of the stack and the size of the memory are not
  modelled.
\<close>

definition INT_MAX :: int where
  "INT_MAX = 2147483647"

definition INT_MIN :: int where
  "INT_MIN = - 2147483648"

definition LLONG_MAX :: int where
  "LLONG_MAX = 9223372036854775807"

definition in_int :: "int \<Rightarrow> bool" where
  "in_int x = (INT_MIN \<le> x \<and> x \<le> INT_MAX)"

definition wrap32 :: "int \<Rightarrow> int" where
  "wrap32 x = (x + 2147483648) mod 4294967296 - 2147483648"

definition wrap64 :: "int \<Rightarrow> int" where
  "wrap64 x = (x + 9223372036854775808) mod 18446744073709551616 - 9223372036854775808"

text \<open>Integer division and remainder of C++ truncate towards zero.\<close>

definition c_div :: "int \<Rightarrow> int \<Rightarrow> int" where
  "c_div a b = sgn a * sgn b * (\<bar>a\<bar> div \<bar>b\<bar>)"

definition c_mod :: "int \<Rightarrow> int \<Rightarrow> int" where
  "c_mod a b = a - b * c_div a b"

text \<open>The conversion of a signed integer to \<^verbatim>\<open>size_t\<close> (64 bits, unsigned).\<close>

definition size_t_of_int :: "int \<Rightarrow> nat" where
  "size_t_of_int x = nat (x mod 18446744073709551616)"

section \<open>Vectors\<close>

text \<open>
  A \<^verbatim>\<open>std::vector\<close> is a list. A vector refuses a size above its \<^verbatim>\<open>max_size()\<close> with
  \<^verbatim>\<open>std::length_error\<close>; \<^verbatim>\<open>max_size()\<close> is at most \<^verbatim>\<open>PTRDIFF_MAX\<close> for every element
  type. A size converted from a negative \<^verbatim>\<open>int\<close> is at least \<open>2^64 - 2^31\<close> and is
  refused for every element type; a size converted from a non-negative \<^verbatim>\<open>int\<close> is below
  \<open>2^31\<close> and is accepted for the element types used here. Running out of memory is
  not modelled.
\<close>

definition fits_size :: "nat \<Rightarrow> bool" where
  "fits_size count = (count \<le> 9223372036854775807)"

definition new_vector :: "int \<Rightarrow> 'a \<Rightarrow> 'a list option" where
  "new_vector count v =
     (if fits_size (size_t_of_int count) then Some (replicate (size_t_of_int count) v) else None)"

definition resize :: "int \<Rightarrow> 'a \<Rightarrow> 'a list \<Rightarrow> 'a list option" where
  "resize count v xs =
     (if fits_size (size_t_of_int count)
      then Some (take (size_t_of_int count) xs @ replicate (size_t_of_int count - length xs) v)
      else None)"

text \<open>\<^verbatim>\<open>operator[]\<close> outside the vector is undefined behaviour.\<close>

definition vec_get :: "'a list \<Rightarrow> int \<Rightarrow> 'a option" where
  "vec_get xs i = (if 0 \<le> i \<and> nat i < length xs then Some (xs ! nat i) else None)"

definition vec_set :: "'a list \<Rightarrow> int \<Rightarrow> 'a \<Rightarrow> 'a list option" where
  "vec_set xs i v = (if 0 \<le> i \<and> nat i < length xs then Some (xs[nat i := v]) else None)"

text \<open>
  A loop \<^verbatim>\<open>for (int i = a; i < n; ++i)\<close> over a state: the counter stays below \<open>n\<close>,
  so the increment cannot wrap and the loop ends.
\<close>

function for_loop :: "int \<Rightarrow> int \<Rightarrow> (int \<Rightarrow> 's \<Rightarrow> 's) \<Rightarrow> 's \<Rightarrow> 's" where
  "for_loop i n body s = (if i < n then for_loop (i + 1) n body (body i s) else s)"
  by pat_completeness auto
termination
  by (relation "measure (\<lambda>(i, n, body, s). nat (n - i))") auto

declare for_loop.simps [simp del]

section \<open>Kernels\<close>

subsection \<open>\<^verbatim>\<open>sum_of_squares\<close>\<close>

text \<open>
  \<^verbatim>\<open>for (int i = 1; i <= n; ++i) total += static_cast<long long>(i) * i;\<close>
  The loop does not end when \<open>n\<close> is \<open>INT_MAX\<close>: the counter wraps to \<open>INT_MIN\<close>.
\<close>

partial_function (option) sum_of_squares_loop :: "int \<Rightarrow> int \<Rightarrow> int \<Rightarrow> int option" where
  "sum_of_squares_loop i n acc =
     (if i \<le> n
      then sum_of_squares_loop (wrap32 (i + 1)) n (wrap64 (acc + wrap64 (i * i)))
      else Some acc)"

declare sum_of_squares_loop.simps [code]

definition sum_of_squares :: "int \<Rightarrow> int option" where
  "sum_of_squares n = sum_of_squares_loop 1 n 0"

subsection \<open>\<^verbatim>\<open>sum_of_squares_optimized\<close>\<close>

definition sum_of_squares_optimized :: "int \<Rightarrow> int" where
  "sum_of_squares_optimized n =
     (let ln = n
      in c_div (wrap64 (wrap64 (ln * wrap64 (ln + 1)) * wrap64 (wrap64 (2 * ln) + 1))) 6)"

subsection \<open>\<^verbatim>\<open>fibonacci_recursive\<close>\<close>

text \<open>Past the test \<open>n \<le> 1\<close> the argument is at least 2, so \<open>n - 1\<close> and \<open>n - 2\<close> do not wrap.\<close>

function fibonacci_recursive :: "int \<Rightarrow> int" where
  "fibonacci_recursive n =
     (if n \<le> 1 then n
      else wrap64 (fibonacci_recursive (n - 1) + fibonacci_recursive (n - 2)))"
  by pat_completeness auto
termination
  by (relation "measure nat") auto

declare fibonacci_recursive.simps [simp del]

subsection \<open>\<^verbatim>\<open>prime_count\<close>\<close>

text \<open>
  Modelled from the spec: \<^verbatim>\<open>std::sqrt\<close> is a library function, and the spec gives the
  bound of the trial division as the floor of the square root of the candidate.
  \<^verbatim>\<open>static_cast<int>(std::sqrt(num))\<close> is that floor for every non-negative \<^verbatim>\<open>int\<close>: the
  conversion to \<^verbatim>\<open>double\<close> is exact and the square root is correctly rounded. The square
  root of a negative number is not a number, and its conversion to \<^verbatim>\<open>int\<close> is undefined.
\<close>

fun floor_sqrt :: "nat \<Rightarrow> nat" where
  "floor_sqrt 0 = 0"
| "floor_sqrt (Suc n) =
     (let r = floor_sqrt n in if (r + 1) * (r + 1) \<le> Suc n then r + 1 else r)"

definition sqrt_int :: "int \<Rightarrow> int option" where
  "sqrt_int num = (if num < 0 then None else Some (int (floor_sqrt (nat num))))"

text \<open>
  The inner loop: \<open>Some False\<close> is the \<^verbatim>\<open>break\<close> with \<^verbatim>\<open>is_prime = false\<close>. The counter
  starts at 2 and grows, so the divisor of \<^verbatim>\<open>num % i\<close> is not zero.
\<close>

partial_function (option) trial_loop :: "int \<Rightarrow> int \<Rightarrow> int \<Rightarrow> bool option" where
  "trial_loop i sqrt_num num =
     (if i \<le> sqrt_num
      then (if c_mod num i = 0 then Some False else trial_loop (wrap32 (i + 1)) sqrt_num num)
      else Some True)"

declare trial_loop.simps [code]

partial_function (option) prime_count_loop :: "int \<Rightarrow> int \<Rightarrow> int \<Rightarrow> int option" where
  "prime_count_loop num limit count =
     (if num \<le> limit
      then do {
        sqrt_num \<leftarrow> sqrt_int num;
        is_prime \<leftarrow> trial_loop 2 sqrt_num num;
        prime_count_loop (wrap32 (num + 1)) limit
          (if is_prime then wrap32 (count + 1) else count)
      }
      else Some count)"

declare prime_count_loop.simps [code]

definition prime_count :: "int \<Rightarrow> int option" where
  "prime_count limit = (if limit < 2 then Some 0 else prime_count_loop 2 limit 0)"

subsection \<open>\<^verbatim>\<open>matrix_multiplication\<close>\<close>

text \<open>
  Every index below is a loop counter between 0 and \<open>sz\<close>, and every vector has
  \<open>sz\<close> elements, so the accesses are inside the vectors.
\<close>

definition get2 :: "int list list \<Rightarrow> int \<Rightarrow> int \<Rightarrow> int" where
  "get2 m i j = m ! nat i ! nat j"

definition set2 :: "int list list \<Rightarrow> int \<Rightarrow> int \<Rightarrow> int \<Rightarrow> int list list" where
  "set2 m i j v = m[nat i := (m ! nat i)[nat j := v]]"

definition init_matrices :: "int \<Rightarrow> int list list \<times> int list list \<Rightarrow> int list list \<times> int list list" where
  "init_matrices sz ab =
     for_loop 0 sz (\<lambda>i. for_loop 0 sz (\<lambda>j (matrix_a, matrix_b).
       (set2 matrix_a i j (wrap32 (i + j)), set2 matrix_b i j (wrap32 (wrap32 (i * j) + 1))))) ab"

definition multiply :: "int \<Rightarrow> int list list \<Rightarrow> int list list \<Rightarrow> int list list \<Rightarrow> int list list" where
  "multiply sz matrix_a matrix_b result =
     for_loop 0 sz (\<lambda>i. for_loop 0 sz (\<lambda>k. for_loop 0 sz (\<lambda>j r.
       set2 r i j (wrap32 (get2 r i j + wrap32 (get2 matrix_a i k * get2 matrix_b k j)))))) result"

definition matrix_multiplication :: "int \<Rightarrow> int list list option" where
  "matrix_multiplication sz = do {
     row_a \<leftarrow> new_vector sz (0::int);
     matrix_a0 \<leftarrow> new_vector sz row_a;
     row_b \<leftarrow> new_vector sz (0::int);
     matrix_b0 \<leftarrow> new_vector sz row_b;
     let (matrix_a, matrix_b) = init_matrices sz (matrix_a0, matrix_b0);
     row \<leftarrow> new_vector sz (0::int);
     result \<leftarrow> new_vector sz row;
     Some (multiply sz matrix_a matrix_b result)
   }"

subsection \<open>\<^verbatim>\<open>prime_count_optimized\<close>\<close>

partial_function (option) sieve_inner :: "int \<Rightarrow> int \<Rightarrow> int \<Rightarrow> bool list \<Rightarrow> bool list option" where
  "sieve_inner j i limit is_prime =
     (if j \<le> limit
      then do {
        is_prime' \<leftarrow> vec_set is_prime j False;
        sieve_inner (wrap32 (j + i)) i limit is_prime'
      }
      else Some is_prime)"

declare sieve_inner.simps [code]

partial_function (option) sieve_outer :: "int \<Rightarrow> int \<Rightarrow> bool list \<Rightarrow> bool list option" where
  "sieve_outer i limit is_prime =
     (if wrap32 (i * i) \<le> limit
      then do {
        b \<leftarrow> vec_get is_prime i;
        is_prime' \<leftarrow> (if b then sieve_inner (wrap32 (i * i)) i limit is_prime else Some is_prime);
        sieve_outer (wrap32 (i + 1)) limit is_prime'
      }
      else Some is_prime)"

declare sieve_outer.simps [code]

partial_function (option) sieve_count :: "int \<Rightarrow> int \<Rightarrow> bool list \<Rightarrow> int \<Rightarrow> int option" where
  "sieve_count i limit is_prime count =
     (if i \<le> limit
      then do {
        b \<leftarrow> vec_get is_prime i;
        sieve_count (wrap32 (i + 1)) limit is_prime (if b then wrap32 (count + 1) else count)
      }
      else Some count)"

declare sieve_count.simps [code]

definition prime_count_optimized :: "int \<Rightarrow> int option" where
  "prime_count_optimized limit =
     (if limit < 2 then Some 0
      else do {
        is_prime0 \<leftarrow> new_vector (wrap32 (limit + 1)) True;
        is_prime1 \<leftarrow> vec_set is_prime0 1 False;
        is_prime2 \<leftarrow> vec_set is_prime1 0 False;
        is_prime3 \<leftarrow> sieve_outer 2 limit is_prime2;
        sieve_count 2 limit is_prime3 0
      })"

subsection \<open>\<^verbatim>\<open>fibonacci_memoized\<close>\<close>

text \<open>
  The function-local \<^verbatim>\<open>static std::vector<long long> memo\<close> is the state: the function
  takes the cache and returns the value with the new cache. C++ leaves the order of
  the two recursive calls open; the model runs them left to right.
\<close>

function fibonacci_memoized :: "int \<Rightarrow> int list \<Rightarrow> (int \<times> int list) option" where
  "fibonacci_memoized n memo = do {
     memo1 \<leftarrow> (if length memo \<le> size_t_of_int n then resize (wrap32 (n + 1)) (- 1) memo
               else Some memo);
     if n \<le> 1 then Some (n, memo1)
     else do {
       v \<leftarrow> vec_get memo1 n;
       if v \<noteq> - 1 then Some (v, memo1)
       else do {
         (a, memo2) \<leftarrow> fibonacci_memoized (n - 1) memo1;
         (b, memo3) \<leftarrow> fibonacci_memoized (n - 2) memo2;
         memo4 \<leftarrow> vec_set memo3 n (wrap64 (a + b));
         v' \<leftarrow> vec_get memo4 n;
         Some (v', memo4)
       }
     }
   }"
  by pat_completeness auto
termination
  by (relation "measure (\<lambda>(n, memo). nat n)") auto

declare fibonacci_memoized.simps [simp del]

section \<open>Benchmark wrappers\<close>

text \<open>
  \<^verbatim>\<open>for (int i = 0; i < iterations; ++i) result = kernel(n);\<close>
  The kernels called here have no state, so every pass of the loop has the same
  outcome \<open>call\<close>; a pass that gives no value ends the wrapper without a value. The
  counter stays below \<open>iterations\<close>, so the increment cannot wrap.
\<close>

function bench_loop :: "int \<Rightarrow> int \<Rightarrow> 'a option \<Rightarrow> 'a \<Rightarrow> 'a option" where
  "bench_loop i iterations call result =
     (if i < iterations
      then (case call of None \<Rightarrow> None | Some r \<Rightarrow> bench_loop (i + 1) iterations call r)
      else Some result)"
  by pat_completeness auto
termination
  by (relation "measure (\<lambda>(i, iterations, call, result). nat (iterations - i))") auto

declare bench_loop.simps [simp del]

text \<open>
  \<^verbatim>\<open>double avg_time = duration.count() / (1e9 * iterations);\<close>
  The elapsed nanoseconds come from the clock and are a parameter of the model. The
  divisor is exact in a \<^verbatim>\<open>double\<close> (\<open>10^9 = 2^9 * 5^9\<close> and \<open>iterations\<close> is below \<open>2^31\<close>
  in size, so the product has fewer than 53 significant bits); for \<open>iterations = 0\<close> it
  is the positive zero. The division is the division of \<^verbatim>\<open>double\<close>: a quotient by zero is
  not a fault, it is an infinity with the sign of the dividend, or not a number when
  the dividend is zero as well. A finite quotient is modelled by the real number that
  the \<^verbatim>\<open>double\<close> rounds.
\<close>

datatype double_value = Finite real | Plus_infinity | Minus_infinity | Not_a_number

definition avg_divisor :: "int \<Rightarrow> real" where
  "avg_divisor iterations = 1000000000 * real_of_int iterations"

definition avg_time :: "int \<Rightarrow> int \<Rightarrow> double_value" where
  "avg_time elapsed_ns iterations =
     (if avg_divisor iterations = 0
      then (if 0 < elapsed_ns then Plus_infinity
            else if elapsed_ns < 0 then Minus_infinity
            else Not_a_number)
      else Finite (real_of_int elapsed_ns / avg_divisor iterations))"

definition benchmark_sum_of_squares :: "int \<Rightarrow> int \<Rightarrow> int \<Rightarrow> (int \<times> double_value) option" where
  "benchmark_sum_of_squares n iterations elapsed_ns = do {
     result \<leftarrow> bench_loop 0 iterations (sum_of_squares n) 0;
     let avg = avg_time elapsed_ns iterations;
     Some (result, avg)
   }"



text \<open>
  With no pass of the loop the result stays the empty matrix, and \<^verbatim>\<open>result[0][0]\<close> reads
  outside it.
\<close>

definition benchmark_matrix_mult :: "int \<Rightarrow> int \<Rightarrow> int \<Rightarrow> (int \<times> double_value) option" where
  "benchmark_matrix_mult sz iterations elapsed_ns = do {
     result \<leftarrow> bench_loop 0 iterations (matrix_multiplication sz) [];
     let avg = avg_time elapsed_ns iterations;
     row0 \<leftarrow> vec_get result 0;
     sample \<leftarrow> vec_get row0 0;
     Some (sample, avg)
   }"

section \<open>Specification\<close>

subsection \<open>The Fibonacci sequence and the cache\<close>

text \<open>The sequence of the spec: \<open>F(0) = 0\<close>, \<open>F(1) = 1\<close>, \<open>F(k) = F(k-1) + F(k-2)\<close>.\<close>

fun Fib :: "nat \<Rightarrow> int" where
  "Fib 0 = 0"
| "Fib (Suc 0) = 1"
| "Fib (Suc (Suc k)) = Fib (Suc k) + Fib k"

text \<open>Two consecutive values at once, to compute the sequence in linear time.\<close>

fun fib_pair :: "nat \<Rightarrow> int \<times> int" where
  "fib_pair 0 = (0, 1)"
| "fib_pair (Suc k) = (case fib_pair k of (a, b) \<Rightarrow> (b, a + b))"

text \<open>
  The invariant of the cache in 64-bit arithmetic: a slot is unset or holds the
  Fibonacci number of its index, reduced to 64 bits.
\<close>

definition memo_inv :: "int list \<Rightarrow> bool" where
  "memo_inv memo = (\<forall>i\<in>{0..<length memo}. memo ! i = - 1 \<or> memo ! i = wrap64 (Fib i))"

text \<open>
  \<open>fills k memo memo'\<close>: the cache \<open>memo'\<close> is \<open>memo\<close> with some unset slots up to index
  \<open>k\<close> filled in; no other slot differs.
\<close>

definition fills :: "nat \<Rightarrow> int list \<Rightarrow> int list \<Rightarrow> bool" where
  "fills k memo memo' =
     (length memo' = length memo \<and>
      (\<forall>i\<in>{0..<length memo}.
         memo' ! i = memo ! i \<or> (memo ! i = - 1 \<and> i \<le> k \<and> memo' ! i = wrap64 (Fib i))))"

text \<open>The cache after the resize at the head of a call with a non-negative argument.\<close>

definition grown :: "int \<Rightarrow> int list \<Rightarrow> int list" where
  "grown n memo =
     (if length memo \<le> nat n then memo @ replicate (nat n + 1 - length memo) (- 1) else memo)"

text \<open>
  The states of the cache that a program can reach: the empty cache of the start, and
  the cache left by any call that returns, whatever its \<^verbatim>\<open>int\<close> argument.
\<close>

inductive reachable :: "int list \<Rightarrow> bool" where
  initial: "reachable []"
| call: "reachable memo \<Longrightarrow> in_int n \<Longrightarrow> fibonacci_memoized n memo = Some (v, memo')
         \<Longrightarrow> reachable memo'"

subsection \<open>The matrix product\<close>

text \<open>
  The matrices of the spec, \<open>A[i][j] = i + j\<close> and \<open>B[i][j] = i * j + 1\<close>, and their
  product over the integers.
\<close>

definition mat_A :: "nat \<Rightarrow> nat \<Rightarrow> int" where
  "mat_A i j = int i + int j"

definition mat_B :: "nat \<Rightarrow> nat \<Rightarrow> int" where
  "mat_B i j = int i * int j + 1"

definition mat_product :: "nat \<Rightarrow> nat \<Rightarrow> nat \<Rightarrow> int" where
  "mat_product n i j = (\<Sum>k = 0..<n. mat_A i k * mat_B k j)"

definition product_matrix :: "nat \<Rightarrow> int list list" where
  "product_matrix n = map (\<lambda>i. map (\<lambda>j. mat_product n i j) [0..<n]) [0..<n]"

subsection \<open>Prime counting\<close>

text \<open>What the trial division decides: no divisor from 2 to the floor of the square root.\<close>

definition no_small_divisor :: "int \<Rightarrow> bool" where
  "no_small_divisor x = (\<forall>d\<in>{2..int (floor_sqrt (nat x))}. \<not> d dvd x)"

text \<open>
  The invariant of the sieve when the outer loop reaches \<open>i\<close>: an index is still marked
  prime exactly when it is at least 2 and has no divisor \<open>d\<close> with \<open>2 \<le> d < i\<close> and
  \<open>d * d\<close> at most the index.
\<close>

definition sieved :: "int \<Rightarrow> int \<Rightarrow> bool list \<Rightarrow> bool" where
  "sieved i limit is_prime =
     (length is_prime = nat limit + 1 \<and>
      (\<forall>x\<in>{0..limit}. is_prime ! nat x = (2 \<le> x \<and> (\<forall>d\<in>{2..<i}. d * d \<le> x \<longrightarrow> \<not> d dvd x))))"

section \<open>Wrap-around arithmetic\<close>

lemma wrap32_id: "- 2147483648 \<le> x \<Longrightarrow> x \<le> 2147483647 \<Longrightarrow> wrap32 x = x"
  by (simp add: wrap32_def)

lemma wrap64_id: "- 9223372036854775808 \<le> x \<Longrightarrow> x \<le> 9223372036854775807 \<Longrightarrow> wrap64 x = x"
  by (simp add: wrap64_def)

lemma wrap64_cong:
  "a mod 18446744073709551616 = b mod 18446744073709551616 \<Longrightarrow> wrap64 a = wrap64 b"
proof -
  assume "a mod 18446744073709551616 = b mod 18446744073709551616"
  then have "(a + 9223372036854775808) mod 18446744073709551616
           = (b + 9223372036854775808) mod 18446744073709551616"
    by (rule mod_add_cong) simp
  then show ?thesis by (simp add: wrap64_def)
qed

lemma wrap64_mod: "wrap64 a mod 18446744073709551616 = a mod 18446744073709551616"
proof -
  have "wrap64 a mod 18446744073709551616
      = ((a + 9223372036854775808) mod 18446744073709551616 - 9223372036854775808)
          mod 18446744073709551616"
    by (simp add: wrap64_def)
  also have "\<dots> = (a + 9223372036854775808 - 9223372036854775808) mod 18446744073709551616"
    by (rule mod_diff_cong) simp_all
  finally show ?thesis by simp
qed

lemma wrap64_add_left: "wrap64 (wrap64 a + b) = wrap64 (a + b)"
  by (rule wrap64_cong, rule mod_add_cong) (simp_all add: wrap64_mod)

lemma wrap64_add_right: "wrap64 (a + wrap64 b) = wrap64 (a + b)"
  by (rule wrap64_cong, rule mod_add_cong) (simp_all add: wrap64_mod)

lemma wrap64_mult_left: "wrap64 (wrap64 a * b) = wrap64 (a * b)"
  by (rule wrap64_cong, rule mod_mult_cong) (simp_all add: wrap64_mod)

lemma wrap64_mult_right: "wrap64 (a * wrap64 b) = wrap64 (a * b)"
  by (rule wrap64_cong, rule mod_mult_cong) (simp_all add: wrap64_mod)

lemma wrap64_idem: "wrap64 (wrap64 a) = wrap64 a"
  by (rule wrap64_cong) (simp add: wrap64_mod)

lemma int_interval_first: "i \<le> n \<Longrightarrow> {i..n} = insert i {i + 1..n}" for i n :: int
  by auto

lemma sum_of_squares_loop_eq:
  "i \<le> n + 1 \<Longrightarrow> n < 2147483647 \<Longrightarrow> - 2147483648 \<le> i \<Longrightarrow>
   wrap64 acc = acc \<Longrightarrow>
   sum_of_squares_loop i n acc = Some (wrap64 (acc + (\<Sum>k = i..n. k * k)))"
proof (induction "nat (n + 1 - i)" arbitrary: i acc)
  case 0
  then have "i = n + 1" by simp
  then show ?case
    using "0.prems" by (subst sum_of_squares_loop.simps) simp
next
  case (Suc m)
  then have le: "i \<le> n" by simp
  have w: "wrap32 (i + 1) = i + 1"
    using le Suc.prems by (intro wrap32_id) auto
  have m: "m = nat (n + 1 - (i + 1))" using Suc.hyps(2) by simp
  have IH: "sum_of_squares_loop (i + 1) n (wrap64 a) = Some (wrap64 (wrap64 a + (\<Sum>k = i + 1..n. k * k)))" for a
    using Suc.hyps(1) [OF m, of "wrap64 a"] le Suc.prems by (simp add: wrap64_idem)
  have S: "(\<Sum>k = i..n. k * k) = i * i + (\<Sum>k = i + 1..n. k * k)"
    by (simp add: int_interval_first [OF le])
  show ?case
    by (subst sum_of_squares_loop.simps)
       (simp add: le w IH S wrap64_add_left wrap64_add_right add.assoc)
qed

lemma six_sum_squares:
  "0 \<le> n \<Longrightarrow> 6 * (\<Sum>k = 1..n. k * k) = n * (n + 1) * (2 * n + 1)" for n :: int
proof (induction n rule: int_ge_induct)
  case base
  show ?case by simp
next
  case (step i)
  have "{1..i + 1} = insert (i + 1) {1..i}" using step.hyps by auto
  then have "(\<Sum>k = 1..i + 1. k * k) = (i + 1) * (i + 1) + (\<Sum>k = 1..i. k * k)"
    by simp
  with step.IH show ?case by (simp add: algebra_simps)
qed

lemma sum_of_squares_optimized_eq:
  "sum_of_squares_optimized n = c_div (wrap64 (n * (n + 1) * (2 * n + 1))) 6"
  by (simp add: sum_of_squares_optimized_def Let_def wrap64_mult_left wrap64_mult_right
      wrap64_add_left)

lemma closed_form_bound:
  fixes n :: int
  assumes "0 \<le> n" "n \<le> 10000"
  shows "0 \<le> n * (n + 1) * (2 * n + 1)" "n * (n + 1) * (2 * n + 1) \<le> 2000400030000"
proof -
  show "0 \<le> n * (n + 1) * (2 * n + 1)" using assms by simp
  have "n * (n + 1) \<le> 10000 * 10001"
    using assms by (intro mult_mono) auto
  then have "n * (n + 1) * (2 * n + 1) \<le> (10000 * 10001) * 20001"
    using assms by (intro mult_mono) auto
  then show "n * (n + 1) * (2 * n + 1) \<le> 2000400030000" by simp
qed

lemma sum_of_squares_closed:
  assumes "0 \<le> n" "n \<le> 10000"
  shows "sum_of_squares n = Some (n * (n + 1) * (2 * n + 1) div 6)"
proof -
  let ?p = "n * (n + 1) * (2 * n + 1)"
  have b: "0 \<le> ?p" "?p \<le> 2000400030000"
    using closed_form_bound [OF assms] by auto
  have "6 * (\<Sum>k = 1..n. k * k) = ?p"
    using six_sum_squares assms by simp
  then have s: "(\<Sum>k = 1..n. k * k) = ?p div 6"
    by (metis nonzero_mult_div_cancel_left zero_neq_numeral)
  have "0 \<le> ?p div 6" "?p div 6 \<le> 2000400030000" using b by simp_all
  then have ws: "wrap64 (?p div 6) = ?p div 6" by (intro wrap64_id) auto
  have "sum_of_squares n = Some (wrap64 (\<Sum>k = 1..n. k * k))"
    using assms sum_of_squares_loop_eq [of 1 n 0]
    by (simp add: sum_of_squares_def wrap64_def)
  then show ?thesis by (simp add: s ws)
qed

lemma sum_of_squares_optimized_closed:
  assumes "0 \<le> n" "n \<le> 10000"
  shows "sum_of_squares_optimized n = n * (n + 1) * (2 * n + 1) div 6"
proof -
  let ?p = "n * (n + 1) * (2 * n + 1)"
  have b: "0 \<le> ?p" "?p \<le> 2000400030000"
    using closed_form_bound [OF assms] by auto
  then have "wrap64 ?p = ?p" by (intro wrap64_id) auto
  then show ?thesis
    using b by (simp add: sum_of_squares_optimized_eq c_div_def sgn_if)
qed

text \<open>
  Claim C1. For every \<open>n\<close> from 0 to 10000, \<^verbatim>\<open>sum_of_squares(n)\<close> returns the value that
  \<^verbatim>\<open>sum_of_squares_optimized(n)\<close> returns, and the optimized kernel, which works in 64-bit
  arithmetic throughout, gives the closed form \<open>n(n+1)(2n+1)/6\<close>.
\<close>

theorem sum_of_squares_equiv:
  assumes "0 \<le> n" "n \<le> 10000"
  shows "sum_of_squares n = Some (sum_of_squares_optimized n)
       \<and> sum_of_squares_optimized n = n * (n + 1) * (2 * n + 1) div 6"
  using assms by (simp add: sum_of_squares_closed sum_of_squares_optimized_closed)

theorem sum_of_squares_equiv_witness:
  "(0::int) \<le> 100 \<and> (100::int) \<le> 10000 \<and> sum_of_squares 100 = Some 338350
   \<and> sum_of_squares_optimized 100 = 338350"
  using sum_of_squares_equiv [of 100] by simp

text \<open>
  Claim C10. \<^verbatim>\<open>fibonacci_recursive\<close> is a total function (its recursion ends on every
  integer, as the termination proof of the definition shows), and for every
  \<open>n \<le> 1\<close>, negative ones included, it returns \<open>n\<close> itself without recursing.
\<close>

theorem fibonacci_recursive_echo: "n \<le> 1 \<Longrightarrow> fibonacci_recursive n = n"
  by (simp add: fibonacci_recursive.simps)

theorem fibonacci_recursive_echo_witness:
  "(- 5::int) \<le> 1 \<and> fibonacci_recursive (- 5) = - 5"
  using fibonacci_recursive_echo [of "- 5"] by simp

section \<open>Benchmark wrappers: results and timing\<close>

lemma bench_loop_done: "\<not> i < iterations \<Longrightarrow> bench_loop i iterations call result = Some result"
  by (simp add: bench_loop.simps)

lemma bench_loop_last: "i < iterations \<Longrightarrow> bench_loop i iterations call result = call"
proof (induction "nat (iterations - i)" arbitrary: i result)
  case 0
  then show ?case by simp
next
  case (Suc m)
  show ?case
  proof (cases call)
    case None
    with Suc.prems show ?thesis by (simp add: bench_loop.simps)
  next
    case (Some r)
    show ?thesis
    proof (cases "i + 1 < iterations")
      case True
      have "m = nat (iterations - (i + 1))" using Suc.hyps(2) by simp
      from Suc.hyps(1) [OF this True] have "bench_loop (i + 1) iterations call r = call" .
      with Some Suc.prems show ?thesis by (simp add: bench_loop.simps)
    next
      case False
      then have "bench_loop (i + 1) iterations call r = Some r" by (rule bench_loop_done)
      with Some Suc.prems show ?thesis by (simp add: bench_loop.simps)
    qed
  qed
qed





lemma sum_of_squares_returns:
  "n < INT_MAX \<Longrightarrow> sum_of_squares n = Some (wrap64 (\<Sum>k = 1..n. k * k))"
proof (cases "0 \<le> n")
  case True
  assume "n < INT_MAX"
  with True sum_of_squares_loop_eq [of 1 n 0] show ?thesis
    by (simp add: sum_of_squares_def wrap64_def INT_MAX_def)
next
  case False
  then have "{1..n} = {}" by simp
  with False show ?thesis
    by (simp add: sum_of_squares_def sum_of_squares_loop.simps wrap64_def)
qed

text \<open>
  At \<open>n = INT_MAX\<close> the counter of the kernel's loop can never pass \<open>n\<close>: the kernel
  does not return.
\<close>

lemma wrap32_le: "wrap32 x \<le> INT_MAX"
  by (simp add: wrap32_def INT_MAX_def)

lemma sum_of_squares_loop_stuck:
  assumes "sum_of_squares_loop i n acc = Some r"
  shows "n = INT_MAX \<longrightarrow> i \<le> INT_MAX \<longrightarrow> False"
proof (rule sum_of_squares_loop.raw_induct
    [OF _ assms, where P = "\<lambda>i n acc r. n = INT_MAX \<longrightarrow> i \<le> INT_MAX \<longrightarrow> False"])
  fix loop :: "int \<Rightarrow> int \<Rightarrow> int \<Rightarrow> int option" and i n acc r
  assume IH: "\<And>i n acc r. loop i n acc = Some r \<Longrightarrow> n = INT_MAX \<longrightarrow> i \<le> INT_MAX \<longrightarrow> False"
    and step: "(if i \<le> n then loop (wrap32 (i + 1)) n (wrap64 (acc + wrap64 (i * i)))
                else Some acc) = Some r"
  show "n = INT_MAX \<longrightarrow> i \<le> INT_MAX \<longrightarrow> False"
  proof (intro impI)
    assume n: "n = INT_MAX" and i: "i \<le> INT_MAX"
    with step have "loop (wrap32 (i + 1)) n (wrap64 (acc + wrap64 (i * i))) = Some r" by simp
    from IH [OF this] n wrap32_le [of "i + 1"] show False by blast
  qed
qed

lemma sum_of_squares_diverges: "sum_of_squares INT_MAX = None"
proof (cases "sum_of_squares INT_MAX")
  case None
  then show ?thesis .
next
  case (Some r)
  then have "sum_of_squares_loop 1 INT_MAX 0 = Some r" by (simp add: sum_of_squares_def)
  from sum_of_squares_loop_stuck [OF this] have False by (simp add: INT_MAX_def)
  then show ?thesis ..
qed

text \<open>
  Claim C7. For every \<open>n \<ge> 0\<close> and every \<open>iterations \<ge> 1\<close>, the first component of what
  \<^verbatim>\<open>benchmark_sum_of_squares(n, iterations)\<close> returns is what \<^verbatim>\<open>sum_of_squares(n)\<close> returns,
  whatever the number of iterations and the elapsed time; the kernel returns a value for
  every \<open>n\<close> below \<open>INT_MAX\<close>.
\<close>

theorem benchmark_sum_of_squares_result:
  assumes "0 \<le> n" "1 \<le> iterations"
  shows "map_option fst (benchmark_sum_of_squares n iterations elapsed_ns) = sum_of_squares n
       \<and> (n < INT_MAX \<longrightarrow> sum_of_squares n \<noteq> None)"
proof -
  have loop: "bench_loop 0 iterations (sum_of_squares n) 0 = sum_of_squares n"
    using assms by (intro bench_loop_last) simp
  have "map_option fst (benchmark_sum_of_squares n iterations elapsed_ns) = sum_of_squares n"
    unfolding benchmark_sum_of_squares_def loop
    by (cases "sum_of_squares n") simp_all
  moreover have "n < INT_MAX \<longrightarrow> sum_of_squares n \<noteq> None"
    by (simp add: sum_of_squares_returns)
  ultimately show ?thesis by simp
qed

lemma sum_of_squares_100: "sum_of_squares 100 = Some 338350"
  using sum_of_squares_closed [of 100] by simp

theorem benchmark_sum_of_squares_result_witness:
  "(0::int) \<le> 100 \<and> (1::int) \<le> 5
   \<and> map_option fst (benchmark_sum_of_squares 100 5 1000) = Some 338350
   \<and> sum_of_squares 100 = Some 338350 \<and> 100 < INT_MAX"
  using benchmark_sum_of_squares_result [of 100 5 1000]
  by (simp add: INT_MAX_def sum_of_squares_100)





section \<open>The memoized Fibonacci kernel\<close>

lemma size_t_of_small: "0 \<le> x \<Longrightarrow> x \<le> 2147483648 \<Longrightarrow> size_t_of_int x = nat x"
  by (simp add: size_t_of_int_def)

lemma fibonacci_memoized_small:
  assumes "0 \<le> n" "n \<le> 1"
  shows "fibonacci_memoized n memo
       = Some (n, if length memo \<le> nat n
                  then memo @ replicate (nat n + 1 - length memo) (- 1) else memo)"
proof -
  have s: "size_t_of_int n = nat n" "size_t_of_int (n + 1) = nat n + 1"
    using assms by (simp_all add: size_t_of_small nat_add_distrib)
  have w: "wrap32 (n + 1) = n + 1" using assms by (intro wrap32_id) auto
  have f: "fits_size (Suc (nat n))" using assms by (simp add: fits_size_def)
  show ?thesis
    using assms by (subst fibonacci_memoized.simps) (simp add: s w f resize_def)
qed

lemma fib_pair_eq: "fib_pair k = (Fib k, Fib (Suc k))"
  by (induction k) simp_all

lemma Fib_92: "Fib 92 = 7540113804746346429"
proof -
  have "fib_pair 92 = (7540113804746346429, 12200160415121876738)" by code_simp
  then show ?thesis by (simp add: fib_pair_eq)
qed

lemma Fib_93: "Fib 93 = 12200160415121876738"
proof -
  have "fib_pair 93 = (12200160415121876738, 19740274219868223167)" by code_simp
  then show ?thesis by (simp add: fib_pair_eq)
qed

lemma Fib_nonneg: "0 \<le> Fib k"
  by (induction k rule: Fib.induct) simp_all

lemma Fib_Suc_mono: "Fib k \<le> Fib (Suc k)"
  using Fib_nonneg [of "k - 1"] by (cases k) simp_all

lemma Fib_mono: "i \<le> j \<Longrightarrow> Fib i \<le> Fib j"
  by (rule lift_Suc_mono_le [of Fib]) (simp_all add: Fib_Suc_mono)

lemma wrap64_Fib: "k \<le> 92 \<Longrightarrow> wrap64 (Fib k) = Fib k"
  using Fib_mono [of k 92] Fib_nonneg [of k] by (intro wrap64_id) (simp_all add: Fib_92)

lemma fibonacci_recursive_Fib: "0 \<le> n \<Longrightarrow> fibonacci_recursive n = wrap64 (Fib (nat n))"
proof (induction n rule: fibonacci_recursive.induct)
  case (1 n)
  show ?case
  proof (cases "n \<le> 1")
    case True
    with "1.prems" have "n = 0 \<or> n = 1" by auto
    then have "wrap64 (Fib (nat n)) = n" by (auto simp: wrap64_def)
    then show ?thesis
      using True by (subst fibonacci_recursive.simps) simp
  next
    case False
    then have n: "nat n = Suc (Suc (nat (n - 2)))" "nat (n - 1) = Suc (nat (n - 2))" by simp_all
    have "fibonacci_recursive n
        = wrap64 (wrap64 (Fib (nat (n - 1))) + wrap64 (Fib (nat (n - 2))))"
      using False "1.IH" by (subst fibonacci_recursive.simps) simp
    also have "\<dots> = wrap64 (Fib (nat n))"
      by (simp add: wrap64_add_left wrap64_add_right n)
    finally show ?thesis .
  qed
qed

lemma memo_inv_iff:
  "memo_inv memo \<longleftrightarrow> (\<forall>i<length memo. memo ! i = - 1 \<or> memo ! i = wrap64 (Fib i))"
  unfolding memo_inv_def Ball_def by simp

lemma fills_iff:
  "fills k memo memo' \<longleftrightarrow>
     length memo' = length memo \<and>
     (\<forall>i<length memo.
        memo' ! i = memo ! i \<or> (memo ! i = - 1 \<and> i \<le> k \<and> memo' ! i = wrap64 (Fib i)))"
  unfolding fills_def Ball_def by simp

lemma memo_inv_fills:
  assumes "memo_inv memo" "fills k memo memo'"
  shows "memo_inv memo'"
  unfolding memo_inv_iff
proof (intro allI impI)
  fix i
  assume "i < length memo'"
  then have i: "i < length memo" using assms(2) by (simp add: fills_iff)
  from assms(1) i have "memo ! i = - 1 \<or> memo ! i = wrap64 (Fib i)"
    by (simp add: memo_inv_iff)
  moreover from assms(2) i
  have "memo' ! i = memo ! i \<or> (memo ! i = - 1 \<and> i \<le> k \<and> memo' ! i = wrap64 (Fib i))"
    by (simp add: fills_iff)
  ultimately show "memo' ! i = - 1 \<or> memo' ! i = wrap64 (Fib i)" by auto
qed

lemma fills_refl: "fills k memo memo"
  by (simp add: fills_iff)

lemma fills_length: "fills k memo memo' \<Longrightarrow> length memo' = length memo"
  by (simp add: fills_iff)

lemma fills_above:
  assumes "fills k memo memo'" "k < i" "i < length memo"
  shows "memo' ! i = memo ! i"
proof -
  from assms(1,3)
  have "memo' ! i = memo ! i \<or> (memo ! i = - 1 \<and> i \<le> k \<and> memo' ! i = wrap64 (Fib i))"
    by (simp add: fills_iff)
  with assms(2) show ?thesis by auto
qed

lemma fills_trans:
  assumes "fills k memo memo'" "fills k' memo' memo''" "k \<le> m" "k' \<le> m"
  shows "fills m memo memo''"
proof -
  have l: "length memo' = length memo" "length memo'' = length memo"
    using assms by (simp_all add: fills_iff)
  have "memo'' ! i = memo ! i \<or> (memo ! i = - 1 \<and> i \<le> m \<and> memo'' ! i = wrap64 (Fib i))"
    if "i < length memo" for i
  proof -
    have 1: "memo' ! i = memo ! i \<or> (memo ! i = - 1 \<and> i \<le> k \<and> memo' ! i = wrap64 (Fib i))"
      using assms(1) that by (simp add: fills_iff)
    have 2: "memo'' ! i = memo' ! i \<or> (memo' ! i = - 1 \<and> i \<le> k' \<and> memo'' ! i = wrap64 (Fib i))"
      using assms(2) that l by (simp add: fills_iff)
    from 1 2 assms(3,4) show ?thesis by auto
  qed
  with l show ?thesis by (simp add: fills_iff)
qed

lemma fills_update:
  "j < length memo \<Longrightarrow> memo ! j = - 1 \<Longrightarrow> fills j memo (memo[j := wrap64 (Fib j)])"
  by (auto simp: fills_iff nth_list_update)

lemma memo_inv_grown: "memo_inv memo \<Longrightarrow> memo_inv (grown n memo)"
  by (auto simp: memo_inv_iff grown_def nth_append)

lemma size_t_of_nonneg: "0 \<le> n \<Longrightarrow> n \<le> INT_MAX \<Longrightarrow> size_t_of_int n = nat n"
  by (simp add: size_t_of_int_def INT_MAX_def)

text \<open>A call whose argument is inside the cache: no growth.\<close>

lemma fibonacci_memoized_inside:
  "0 \<le> n \<Longrightarrow> n \<le> INT_MAX \<Longrightarrow> nat n < length memo \<Longrightarrow> memo_inv memo \<Longrightarrow>
   \<exists>memo'. fibonacci_memoized n memo = Some (wrap64 (Fib (nat n)), memo')
      \<and> fills (nat n) memo memo' \<and> (2 \<le> n \<longrightarrow> memo' ! nat n = wrap64 (Fib (nat n)))"
proof (induction "nat n" arbitrary: n memo rule: less_induct)
  case less
  have s: "\<not> length memo \<le> size_t_of_int n"
    using less.prems by (simp add: size_t_of_nonneg)
  show ?case
  proof (cases "n \<le> 1")
    case True
    with less.prems have "n = 0 \<or> n = 1" by auto
    then have "wrap64 (Fib (nat n)) = n" by (auto simp: wrap64_def)
    then show ?thesis
      using True s by (subst fibonacci_memoized.simps) (simp add: fills_refl)
  next
    case False
    have g: "vec_get memo n = Some (memo ! nat n)"
      using less.prems by (simp add: vec_get_def)
    show ?thesis
    proof (cases "memo ! nat n = - 1")
      case hit: False
      have "memo ! nat n = wrap64 (Fib (nat n))"
        using less.prems hit by (auto simp: memo_inv_iff)
      then show ?thesis
        using False s hit g by (subst fibonacci_memoized.simps) (simp add: fills_refl)
    next
      case miss: True
      have n: "nat n = Suc (Suc (nat (n - 2)))" "nat (n - 1) = Suc (nat (n - 2))"
        using False by simp_all
      have p1: "nat (n - 1) < nat n" "0 \<le> n - 1" "n - 1 \<le> INT_MAX" "nat (n - 1) < length memo"
        using False less.prems by simp_all
      obtain memo2 where c1: "fibonacci_memoized (n - 1) memo = Some (wrap64 (Fib (nat (n - 1))), memo2)"
        and f1: "fills (nat (n - 1)) memo memo2"
        using less.hyps [OF p1 less.prems(4)] by blast
      have i2: "memo_inv memo2" using less.prems(4) f1 by (rule memo_inv_fills)
      have l2: "length memo2 = length memo" using f1 by (rule fills_length)
      have p2: "nat (n - 2) < nat n" "0 \<le> n - 2" "n - 2 \<le> INT_MAX" "nat (n - 2) < length memo2"
        using False less.prems l2 by simp_all
      obtain memo3 where c2: "fibonacci_memoized (n - 2) memo2 = Some (wrap64 (Fib (nat (n - 2))), memo3)"
        and f2: "fills (nat (n - 2)) memo2 memo3"
        using less.hyps [OF p2 i2] by blast
      have l3: "length memo3 = length memo" using f2 l2 by (simp add: fills_length)
      have f13: "fills (nat n) memo memo3"
        using f1 f2 by (rule fills_trans) (simp_all add: n)
      have "memo2 ! nat n = memo ! nat n"
        using f1 less.prems(3) False by (intro fills_above [where k = "nat (n - 1)"]) simp_all
      moreover have "memo3 ! nat n = memo2 ! nat n"
        using f2 less.prems(3) False l2 by (intro fills_above [where k = "nat (n - 2)"]) simp_all
      ultimately have u3: "memo3 ! nat n = - 1" using miss by simp
      let ?v = "wrap64 (wrap64 (Fib (nat (n - 1))) + wrap64 (Fib (nat (n - 2))))"
      have v: "?v = wrap64 (Fib (nat n))"
        by (simp add: wrap64_add_left wrap64_add_right n)
      have "fills (nat n) memo3 (memo3[nat n := wrap64 (Fib (nat n))])"
        using u3 l3 less.prems(3) by (intro fills_update) simp_all
      with f13 have f4: "fills (nat n) memo (memo3[nat n := wrap64 (Fib (nat n))])"
        by (rule fills_trans) simp_all
      have "fibonacci_memoized n memo
          = Some (wrap64 (Fib (nat n)), memo3[nat n := wrap64 (Fib (nat n))])"
        using False s g miss c1 c2 l3 less.prems
        by (subst fibonacci_memoized.simps) (simp add: v vec_get_def vec_set_def)
      with f4 l3 less.prems(3) show ?thesis by simp
    qed
  qed
qed

lemma fibonacci_memoized_grown:
  assumes "0 \<le> n" "n < INT_MAX"
  shows "fibonacci_memoized n memo = fibonacci_memoized n (grown n memo)"
proof (cases "length memo \<le> nat n")
  case False
  then show ?thesis by (simp add: grown_def)
next
  case True
  let ?g = "grown n memo"
  let ?body = "\<lambda>memo1. if n \<le> 1 then Some (n, memo1)
     else do {
       v \<leftarrow> vec_get memo1 n;
       if v \<noteq> - 1 then Some (v, memo1)
       else do {
         (a, memo2) \<leftarrow> fibonacci_memoized (n - 1) memo1;
         (b, memo3) \<leftarrow> fibonacci_memoized (n - 2) memo2;
         memo4 \<leftarrow> vec_set memo3 n (wrap64 (a + b));
         v' \<leftarrow> vec_get memo4 n;
         Some (v', memo4)
       }
     }"
  have s: "size_t_of_int n = nat n" "size_t_of_int (n + 1) = nat n + 1"
    using assms by (simp_all add: size_t_of_int_def INT_MAX_def nat_add_distrib)
  have w: "wrap32 (n + 1) = n + 1"
    using assms by (intro wrap32_id) (simp_all add: INT_MAX_def)
  have f: "fits_size (nat n + 1)"
    using assms by (simp add: fits_size_def INT_MAX_def)
  have r: "resize (n + 1) (- 1) memo = Some ?g"
    using True f by (simp add: resize_def s grown_def)
  have L: "fibonacci_memoized n memo = ?body ?g"
    using True by (subst fibonacci_memoized.simps) (simp add: s w r)
  have "\<not> length ?g \<le> size_t_of_int n"
    using True by (simp add: s grown_def)
  then have R: "fibonacci_memoized n ?g = ?body ?g"
    by (subst fibonacci_memoized.simps) simp
  from L R show ?thesis by simp
qed

lemma length_grown: "length (grown n memo) = max (length memo) (nat n + 1)"
  by (simp add: grown_def)

lemma grown_nth: "i < length memo \<Longrightarrow> grown n memo ! i = memo ! i"
  by (simp add: grown_def nth_append)

lemma fibonacci_memoized_call:
  assumes "0 \<le> n" "n < INT_MAX" "memo_inv memo"
  shows "\<exists>memo'. fibonacci_memoized n memo = Some (wrap64 (Fib (nat n)), memo')
      \<and> fills (nat n) (grown n memo) memo' \<and> (2 \<le> n \<longrightarrow> memo' ! nat n = wrap64 (Fib (nat n)))"
proof -
  have "nat n < length (grown n memo)" by (simp add: length_grown)
  moreover have "memo_inv (grown n memo)" using assms(3) by (rule memo_inv_grown)
  ultimately show ?thesis
    using fibonacci_memoized_inside [of n "grown n memo"] assms(1,2)
    by (simp add: fibonacci_memoized_grown [OF assms(1,2), of memo])
qed

lemma memo_inv_resize:
  assumes "memo_inv memo" "resize c (- 1) memo = Some memo1"
  shows "memo_inv memo1"
proof -
  from assms(2) have m: "memo1 = take (size_t_of_int c) memo @ replicate (size_t_of_int c - length memo) (- 1)"
    by (simp add: resize_def split: if_splits)
  show ?thesis
    unfolding memo_inv_iff m using assms(1)
    by (auto simp: memo_inv_iff nth_append)
qed

lemma fibonacci_memoized_preserves:
  assumes "in_int n" "memo_inv memo" "fibonacci_memoized n memo = Some (v, memo')"
  shows "memo_inv memo'"
proof -
  consider "n \<le> 1" | "2 \<le> n" "n < INT_MAX" | "n = INT_MAX" "length memo \<le> nat n"
    | "n = INT_MAX" "nat n < length memo"
    using assms(1) unfolding in_int_def by atomize_elim linarith
  then show ?thesis
  proof cases
    case 1
    show ?thesis
    proof (cases "length memo \<le> size_t_of_int n")
      case True
      with 1 assms(3) have "resize (wrap32 (n + 1)) (- 1) memo = Some memo'"
        by (subst (asm) fibonacci_memoized.simps) (auto split: bind_splits)
      with assms(2) show ?thesis by (rule memo_inv_resize)
    next
      case False
      with 1 assms(3) have "memo' = memo"
        by (subst (asm) fibonacci_memoized.simps) simp
      with assms(2) show ?thesis by simp
    qed
  next
    case 2
    then obtain m where "fibonacci_memoized n memo = Some (wrap64 (Fib (nat n)), m)"
      and "fills (nat n) (grown n memo) m"
      using fibonacci_memoized_call [of n memo] assms(2) by auto
    with assms(2,3) show ?thesis
      using memo_inv_fills [OF memo_inv_grown] by auto
  next
    case 3
    have "wrap32 (n + 1) = - 2147483648" using 3 by (simp add: INT_MAX_def wrap32_def)
    then have "resize (wrap32 (n + 1)) (- 1) memo = None"
      by (simp add: resize_def size_t_of_int_def fits_size_def)
    moreover have "length memo \<le> size_t_of_int n"
      using 3 by (simp add: size_t_of_int_def INT_MAX_def)
    ultimately have "fibonacci_memoized n memo = None"
      by (subst fibonacci_memoized.simps) simp
    with assms(3) show ?thesis by simp
  next
    case 4
    then obtain m where "fibonacci_memoized n memo = Some (wrap64 (Fib (nat n)), m)"
      and "fills (nat n) memo m"
      using fibonacci_memoized_inside [of n memo] assms(2) by (auto simp: INT_MAX_def)
    with assms(2,3) show ?thesis
      using memo_inv_fills by auto
  qed
qed

lemma reachable_memo_inv: "reachable memo \<Longrightarrow> memo_inv memo"
proof (induction rule: reachable.induct)
  case initial
  show ?case by (simp add: memo_inv_iff)
next
  case (call memo n v memo')
  then show ?case by (blast intro: fibonacci_memoized_preserves)
qed

lemma replicate_numeral: "replicate (numeral k) x = x # replicate (pred_numeral k) x"
  by (simp add: numeral_eq_Suc)

lemma list_update_numeral: "(x # xs)[numeral k := y] = x # xs[pred_numeral k := y]"
  by (simp add: numeral_eq_Suc)

lemmas memo_eval = replicate_numeral list_update_numeral fibonacci_memoized.simps size_t_of_int_def resize_def fits_size_def
  wrap32_def wrap64_def vec_get_def vec_set_def

lemma fibonacci_memoized_3: "fibonacci_memoized 3 [] = Some (2, [- 1, - 1, 1, 2])"
  by (simp add: memo_eval)

lemma fibonacci_memoized_5:
  "fibonacci_memoized 5 [- 1, - 1, 1, 2] = Some (5, [- 1, - 1, 1, 2, 3, 5])"
  by (simp add: memo_eval)

lemma reachable_example: "reachable [- 1, - 1, 1, 2]"
proof -
  have "in_int 3" by (simp add: in_int_def INT_MIN_def INT_MAX_def)
  with reachable.initial show ?thesis
    using fibonacci_memoized_3 by (rule reachable.call)
qed

lemma Fib_10: "Fib 10 = 55"
  by (simp add: eval_nat_numeral)

text \<open>
  A call with \<open>n = -1\<close>, below the arguments the spec allows, returns \<open>-1\<close> and empties the
  cache: the size requested from \<^verbatim>\<open>resize\<close> is \<open>n + 1 = 0\<close>.
\<close>

lemma fibonacci_memoized_minus_one:
  "length memo < 18446744073709551616 \<Longrightarrow> fibonacci_memoized (- 1) memo = Some (- 1, [])"
  by (subst fibonacci_memoized.simps)
     (simp add: size_t_of_int_def resize_def fits_size_def wrap32_def)

text \<open>
  Claim C3. For every \<open>n\<close> from 0 to 30 and every reachable state of the cache,
  \<^verbatim>\<open>fibonacci_memoized(n)\<close> returns what \<^verbatim>\<open>fibonacci_recursive(n)\<close> returns, and that value
  is the Fibonacci number \<open>F(n)\<close> with \<open>F(0) = 0\<close>, \<open>F(1) = 1\<close>, \<open>F(k) = F(k-1) + F(k-2)\<close>.
\<close>

theorem fibonacci_agree:
  assumes "reachable memo" "0 \<le> n" "n \<le> 30"
  shows "(\<exists>memo'. fibonacci_memoized n memo = Some (fibonacci_recursive n, memo'))
       \<and> fibonacci_recursive n = Fib (nat n)"
proof -
  have w: "wrap64 (Fib (nat n)) = Fib (nat n)"
    using assms by (intro wrap64_Fib) simp
  have r: "fibonacci_recursive n = Fib (nat n)"
    using assms(2) w by (simp add: fibonacci_recursive_Fib)
  have "memo_inv memo" using assms(1) by (rule reachable_memo_inv)
  then obtain memo' where "fibonacci_memoized n memo = Some (wrap64 (Fib (nat n)), memo')"
    using fibonacci_memoized_call [of n memo] assms by (auto simp: INT_MAX_def)
  with w r show ?thesis by simp
qed

theorem fibonacci_agree_witness:
  "reachable [- 1, - 1, 1, 2] \<and> (0::int) \<le> 10 \<and> (10::int) \<le> 30
   \<and> map_option fst (fibonacci_memoized 10 [- 1, - 1, 1, 2]) = Some 55
   \<and> fibonacci_recursive 10 = 55"
  using fibonacci_agree [of "[- 1, - 1, 1, 2]" 10]
  by (auto simp: reachable_example Fib_10)

text \<open>
  Claim C4, as amended. From every reachable state of the cache, a call of
  \<^verbatim>\<open>fibonacci_memoized(n)\<close> with \<open>0 \<le> n < INT_MAX\<close> returns and leaves a reachable cache in
  which every slot \<open>i\<close> is unset (\<open>-1\<close>) or holds \<open>F(i)\<close> reduced to 64 bits, which is
  \<open>F(i)\<close> itself for every \<open>i \<le> 92\<close>; the cache does not shrink, and a slot that was
  set keeps its value.
\<close>

theorem memo_cache_invariant:
  assumes "reachable memo" "0 \<le> n" "n < INT_MAX"
  shows "\<exists>v memo'. fibonacci_memoized n memo = Some (v, memo')
       \<and> reachable memo'
       \<and> (\<forall>i<length memo'. memo' ! i = - 1 \<or> memo' ! i = wrap64 (Fib i))
       \<and> (\<forall>i<length memo'. i \<le> 92 \<longrightarrow> memo' ! i = - 1 \<or> memo' ! i = Fib i)
       \<and> length memo \<le> length memo'
       \<and> (\<forall>i<length memo. memo ! i \<noteq> - 1 \<longrightarrow> memo' ! i = memo ! i)"
proof -
  have inv: "memo_inv memo" using assms(1) by (rule reachable_memo_inv)
  then obtain memo' where c: "fibonacci_memoized n memo = Some (wrap64 (Fib (nat n)), memo')"
    and f: "fills (nat n) (grown n memo) memo'"
    using fibonacci_memoized_call [OF assms(2,3)] by blast
  have "in_int n" using assms(2,3) by (simp add: in_int_def INT_MIN_def INT_MAX_def)
  with assms(1) c have r: "reachable memo'" by (blast intro: reachable.call)
  then have inv': "memo_inv memo'" by (rule reachable_memo_inv)
  have l: "length memo' = max (length memo) (nat n + 1)"
    using f by (simp add: fills_length length_grown)
  have keep: "memo' ! i = memo ! i" if "i < length memo" "memo ! i \<noteq> - 1" for i
  proof -
    have "i < length (grown n memo)" using that(1) by (simp add: length_grown)
    with f have "memo' ! i = grown n memo ! i
        \<or> (grown n memo ! i = - 1 \<and> i \<le> nat n \<and> memo' ! i = wrap64 (Fib i))"
      by (simp add: fills_iff)
    with that show ?thesis by (simp add: grown_nth)
  qed
  have exact: "memo' ! i = - 1 \<or> memo' ! i = Fib i" if "i < length memo'" "i \<le> 92" for i
    using inv' that by (auto simp: memo_inv_iff wrap64_Fib)
  from c r inv' l keep exact show ?thesis
    by (auto simp: memo_inv_iff)
qed

theorem memo_cache_invariant_witness:
  "reachable [- 1, - 1, 1, 2] \<and> (0::int) \<le> 5 \<and> 5 < INT_MAX
   \<and> fibonacci_memoized 5 [- 1, - 1, 1, 2] = Some (5, [- 1, - 1, 1, 2, 3, 5])
   \<and> reachable [- 1, - 1, 1, 2, 3, 5]"
  using memo_cache_invariant [of "[- 1, - 1, 1, 2]" 5]
  by (auto simp: reachable_example fibonacci_memoized_5 INT_MAX_def)

text \<open>
  The claim C4 as stated fails at \<open>n = 93\<close>: \<open>F(93)\<close> is above \<open>LLONG_MAX\<close>, and slot 93
  holds the wrapped sum, a negative number that is neither \<open>-1\<close> nor \<open>F(93)\<close>.
\<close>

theorem memo_cache_overflow:
  "fibonacci_memoized 93 [] \<noteq> None
   \<and> snd (the (fibonacci_memoized 93 [])) ! 93 = - 6246583658587674878
   \<and> Fib 93 = 12200160415121876738 \<and> LLONG_MAX < Fib 93"
proof -
  have "memo_inv []" by (simp add: memo_inv_iff)
  then obtain memo' where "fibonacci_memoized 93 [] = Some (wrap64 (Fib 93), memo')"
    and "memo' ! 93 = wrap64 (Fib 93)"
    using fibonacci_memoized_call [of 93 "[]"] by (auto simp: INT_MAX_def)
  then show ?thesis by (simp add: Fib_93 wrap64_def LLONG_MAX_def)
qed

text \<open>
  Claim C5, as amended. For \<open>0 \<le> n \<le> 1\<close> a call of \<^verbatim>\<open>fibonacci_memoized(n)\<close> returns \<open>n\<close>
  and stores no computed value, but the resize comes before the test \<open>n \<le> 1\<close>: a cache
  of size at most \<open>n\<close> is grown to size \<open>n + 1\<close> with unset slots; a larger cache is left
  as it is. Growth is not confined to \<open>n \<ge> 2\<close>: from every reachable state of the cache,
  every call with \<open>0 \<le> n < INT_MAX\<close> returns and leaves a cache whose size is the larger
  of the old size and \<open>n + 1\<close>.
\<close>

theorem fibonacci_memoized_base:
  assumes "0 \<le> n"
  shows "(n \<le> 1 \<longrightarrow>
           fibonacci_memoized n memo
             = Some (n, if length memo \<le> nat n
                        then memo @ replicate (nat n + 1 - length memo) (- 1) else memo))
       \<and> (n < INT_MAX \<and> reachable memo \<longrightarrow>
           (\<exists>v memo'. fibonacci_memoized n memo = Some (v, memo')
              \<and> length memo' = max (length memo) (nat n + 1)))"
proof (intro conjI impI)
  assume "n \<le> 1"
  with assms show "fibonacci_memoized n memo
      = Some (n, if length memo \<le> nat n
                 then memo @ replicate (nat n + 1 - length memo) (- 1) else memo)"
    by (rule fibonacci_memoized_small)
next
  assume a: "n < INT_MAX \<and> reachable memo"
  then have "memo_inv memo" by (simp add: reachable_memo_inv)
  with assms a obtain memo' where c: "fibonacci_memoized n memo = Some (wrap64 (Fib (nat n)), memo')"
    and f: "fills (nat n) (grown n memo) memo'"
    using fibonacci_memoized_call [of n memo] by blast
  from f have "length memo' = max (length memo) (nat n + 1)"
    by (simp add: fills_length length_grown)
  with c show "\<exists>v memo'. fibonacci_memoized n memo = Some (v, memo')
      \<and> length memo' = max (length memo) (nat n + 1)" by blast
qed

theorem fibonacci_memoized_base_witness:
  "(0::int) \<le> 1 \<and> (1::int) \<le> 1
   \<and> fibonacci_memoized 1 [] = Some (1, [- 1, - 1])
   \<and> fibonacci_memoized 1 [- 1, - 1, 1] = Some (1, [- 1, - 1, 1])
   \<and> (0::int) \<le> 5 \<and> 5 < INT_MAX \<and> reachable [- 1, - 1, 1, 2]
   \<and> fibonacci_memoized 5 [- 1, - 1, 1, 2] = Some (5, [- 1, - 1, 1, 2, 3, 5])
   \<and> length [- 1, - 1, 1, 2, 3, 5 :: int] = max (length [- 1, - 1, 1, 2 :: int]) (nat 5 + 1)"
  using fibonacci_memoized_base [of 1 "[]"] fibonacci_memoized_base [of 1 "[- 1, - 1, 1]"]
    fibonacci_memoized_base [of 5 "[- 1, - 1, 1, 2]"]
  by (simp add: numeral_2_eq_2 INT_MAX_def reachable_example fibonacci_memoized_5)

text \<open>
  The claim C5 as stated fails on the empty cache: the call with \<open>n = 0\<close> leaves a
  cache of one unset slot.
\<close>

theorem fibonacci_memoized_base_grows:
  "map_option snd (fibonacci_memoized 0 []) = Some [- 1]
   \<and> map_option snd (fibonacci_memoized 0 []) \<noteq> Some []"
  by (simp add: fibonacci_memoized.simps size_t_of_int_def resize_def fits_size_def wrap32_def)

section \<open>Matrix multiplication\<close>

lemma wrap32_cong:
  "a mod 4294967296 = b mod 4294967296 \<Longrightarrow> wrap32 a = wrap32 b"
proof -
  assume "a mod 4294967296 = b mod 4294967296"
  then have "(a + 2147483648) mod 4294967296 = (b + 2147483648) mod 4294967296"
    by (rule mod_add_cong) simp
  then show ?thesis by (simp add: wrap32_def)
qed

lemma wrap32_mod: "wrap32 a mod 4294967296 = a mod 4294967296"
proof -
  have "wrap32 a mod 4294967296
      = ((a + 2147483648) mod 4294967296 - 2147483648) mod 4294967296"
    by (simp add: wrap32_def)
  also have "\<dots> = (a + 2147483648 - 2147483648) mod 4294967296"
    by (rule mod_diff_cong) simp_all
  finally show ?thesis by simp
qed

lemma wrap32_add_left: "wrap32 (wrap32 a + b) = wrap32 (a + b)"
  by (rule wrap32_cong, rule mod_add_cong) (simp_all add: wrap32_mod)

lemma wrap32_add_right: "wrap32 (a + wrap32 b) = wrap32 (a + b)"
  by (rule wrap32_cong, rule mod_add_cong) (simp_all add: wrap32_mod)

lemma wrap32_mult_left: "wrap32 (wrap32 a * b) = wrap32 (a * b)"
  by (rule wrap32_cong, rule mod_mult_cong) (simp_all add: wrap32_mod)

lemma wrap32_mult_right: "wrap32 (a * wrap32 b) = wrap32 (a * b)"
  by (rule wrap32_cong, rule mod_mult_cong) (simp_all add: wrap32_mod)

lemma wrap32_sum:
  "wrap32 (\<Sum>k\<in>S. wrap32 (f k)) = wrap32 (\<Sum>k\<in>S. f k)"
proof (rule wrap32_cong)
  have "(\<Sum>k\<in>S. wrap32 (f k)) mod 4294967296
      = (\<Sum>k\<in>S. wrap32 (f k) mod 4294967296) mod 4294967296"
    by (simp add: mod_sum_eq)
  also have "\<dots> = (\<Sum>k\<in>S. f k mod 4294967296) mod 4294967296"
    by (simp add: wrap32_mod)
  also have "\<dots> = (\<Sum>k\<in>S. f k) mod 4294967296"
    by (simp add: mod_sum_eq)
  finally show "(\<Sum>k\<in>S. wrap32 (f k)) mod 4294967296 = (\<Sum>k\<in>S. f k) mod 4294967296" .
qed

lemma for_loop_fold:
  "0 \<le> i \<Longrightarrow> for_loop i n body s = fold (\<lambda>k. body (int k)) [nat i..<nat n] s"
proof (induction "nat (n - i)" arbitrary: i s)
  case 0
  then show ?case by (simp add: for_loop.simps)
next
  case (Suc m)
  then have lt: "i < n" by simp
  have m: "m = nat (n - (i + 1))" using Suc.hyps(2) by simp
  have "[nat i..<nat n] = nat i # [nat (i + 1)..<nat n]"
    using lt Suc.prems by (simp add: upt_conv_Cons Suc_nat_eq_nat_zadd1 add.commute)
  moreover have "for_loop (i + 1) n body (body i s)
      = fold (\<lambda>k. body (int k)) [nat (i + 1)..<nat n] (body i s)"
    using Suc.hyps(1) [OF m] Suc.prems by simp
  ultimately show ?case
    using lt Suc.prems by (subst for_loop.simps) simp
qed

lemma fold_update:
  "n \<le> length xs \<Longrightarrow>
   fold (\<lambda>i xs. xs[i := g i (xs ! i)]) [0..<n] xs
     = map (\<lambda>i. if i < n then g i (xs ! i) else xs ! i) [0..<length xs]"
proof (induction n)
  case 0
  show ?case by (simp add: map_nth)
next
  case (Suc n)
  then have IH: "fold (\<lambda>i xs. xs[i := g i (xs ! i)]) [0..<n] xs
     = map (\<lambda>i. if i < n then g i (xs ! i) else xs ! i) [0..<length xs]" by simp
  show ?case
    using Suc.prems
    by (simp add: IH) (rule nth_equalityI, simp_all add: nth_list_update less_Suc_eq)
qed

lemma fold_update_all:
  "length xs = n \<Longrightarrow>
   fold (\<lambda>i xs. xs[i := g i (xs ! i)]) [0..<n] xs = map (\<lambda>i. g i (xs ! i)) [0..<n]"
  using fold_update [of n xs g] by simp

lemma fold_row:
  "i < length r \<Longrightarrow> fold (\<lambda>k r. r[i := G k (r ! i)]) ks r = r[i := fold G ks (r ! i)]"
  by (induction ks arbitrary: r) simp_all

lemma fold_pair:
  "fold (\<lambda>x (a, b). (f x a, g x b)) xs (a, b) = (fold f xs a, fold g xs b)"
  by (induction xs arbitrary: a b) simp_all

lemma fold_row_all:
  "fold (\<lambda>k r. r[i := G k (r ! i)]) ks r = r[i := fold G ks (r ! i)]"
proof (cases "i < length r")
  case True
  then show ?thesis by (rule fold_row)
next
  case False
  then have "fold (\<lambda>k r. r[i := G k (r ! i)]) ks r = r"
    by (induction ks) (simp_all add: list_update_beyond)
  with False show ?thesis by (simp add: list_update_beyond)
qed

lemma for_loop_fold_fun:
  "0 \<le> i \<Longrightarrow> for_loop i n body = fold (\<lambda>k. body (int k)) [nat i..<nat n]"
  by (rule ext) (rule for_loop_fold)

lemma fold_cell:
  "fold (\<lambda>j r. r[i := (r ! i)[j := h j (r ! i ! j)]]) js r
     = r[i := fold (\<lambda>j row. row[j := h j (row ! j)]) js (r ! i)]"
  using fold_row_all [where G = "\<lambda>j row. row[j := h j (row ! j)]"] by simp

lemma fill_matrix:
  assumes "length m = N" "\<And>i. i < N \<Longrightarrow> length (m ! i) = N"
  shows "fold (\<lambda>i m. fold (\<lambda>j m. m[i := (m ! i)[j := c i j]]) [0..<N] m) [0..<N] m
       = map (\<lambda>i. map (\<lambda>j. c i j) [0..<N]) [0..<N]"
proof -
  have 1: "\<And>i m. fold (\<lambda>j m. m[i := (m ! i)[j := c i j]]) [0..<N] m
      = m[i := fold (\<lambda>j row. row[j := c i j]) [0..<N] (m ! i)]"
    by (rule fold_cell [where h = "\<lambda>j x. c _ j"])
  have 2: "fold (\<lambda>j row. row[j := c i j]) [0..<N] row = map (\<lambda>j. c i j) [0..<N]"
    if "length row = N" for i and row :: "'a list"
    using fold_update_all [OF that, where g = "\<lambda>j x. c i j"] by simp
  have "fold (\<lambda>i m. fold (\<lambda>j m. m[i := (m ! i)[j := c i j]]) [0..<N] m) [0..<N] m
      = fold (\<lambda>i m. m[i := fold (\<lambda>j row. row[j := c i j]) [0..<N] (m ! i)]) [0..<N] m"
    by (simp only: 1)
  also have "\<dots> = map (\<lambda>i. fold (\<lambda>j row. row[j := c i j]) [0..<N] (m ! i)) [0..<N]"
    by (rule fold_update_all [OF assms(1)])
  also have "\<dots> = map (\<lambda>i. map (\<lambda>j. c i j) [0..<N]) [0..<N]"
    by (rule map_cong) (simp_all add: 2 assms(2))
  finally show ?thesis .
qed

lemma multiply_rows:
  assumes "length r0 = N"
  shows "fold (\<lambda>i r. fold (\<lambda>k r. fold (\<lambda>j r.
            r[i := (r ! i)[j := h i k j (r ! i ! j)]]) [0..<N] r) [0..<N] r) [0..<N] r0
       = map (\<lambda>i. fold (\<lambda>k row. fold (\<lambda>j row. row[j := h i k j (row ! j)]) [0..<N] row)
                      [0..<N] (r0 ! i)) [0..<N]"
proof -
  have 1: "\<And>i k r. fold (\<lambda>j r. r[i := (r ! i)[j := h i k j (r ! i ! j)]]) [0..<N] r
      = r[i := fold (\<lambda>j row. row[j := h i k j (row ! j)]) [0..<N] (r ! i)]"
    by (rule fold_cell)
  have 2: "\<And>i r. fold (\<lambda>k r. r[i := fold (\<lambda>j row. row[j := h i k j (row ! j)]) [0..<N] (r ! i)])
              [0..<N] r
      = r[i := fold (\<lambda>k row. fold (\<lambda>j row. row[j := h i k j (row ! j)]) [0..<N] row)
                 [0..<N] (r ! i)]"
    by (rule fold_row_all)
  show ?thesis
    by (simp only: 1 2) (rule fold_update_all [OF assms])
qed

lemma row_product:
  "fold (\<lambda>k row. fold (\<lambda>j row. row[j := wrap32 (row ! j + wrap32 (f k j))]) [0..<N] row)
        [0..<K] (replicate N 0)
   = map (\<lambda>j. wrap32 (\<Sum>k = 0..<K. f k j)) [0..<N]"
proof (induction K)
  case 0
  show ?case by (simp add: wrap32_def map_replicate_trivial)
next
  case (Suc K)
  let ?prev = "map (\<lambda>j. wrap32 (\<Sum>k = 0..<K. f k j)) [0..<N]"
  have "fold (\<lambda>j row. row[j := wrap32 (row ! j + wrap32 (f K j))]) [0..<N] ?prev
      = map (\<lambda>j. wrap32 (?prev ! j + wrap32 (f K j))) [0..<N]"
    by (rule fold_update_all) simp
  also have "\<dots> = map (\<lambda>j. wrap32 (\<Sum>k = 0..<Suc K. f k j)) [0..<N]"
    by (rule map_cong) (simp_all add: wrap32_add_left wrap32_add_right)
  finally show ?case by (simp add: Suc.IH)
qed

lemma new_vector_int:
  "0 \<le> sz \<Longrightarrow> sz \<le> INT_MAX \<Longrightarrow> new_vector sz v = Some (replicate (nat sz) v)"
  by (simp add: new_vector_def size_t_of_nonneg fits_size_def INT_MAX_def)

lemma init_matrices_eq:
  assumes "0 \<le> sz"
  shows "init_matrices sz (replicate (nat sz) (replicate (nat sz) 0),
                           replicate (nat sz) (replicate (nat sz) 0))
       = (map (\<lambda>i. map (\<lambda>j. wrap32 (int i + int j)) [0..<nat sz]) [0..<nat sz],
          map (\<lambda>i. map (\<lambda>j. wrap32 (wrap32 (int i * int j) + 1)) [0..<nat sz]) [0..<nat sz])"
proof -
  let ?N = "nat sz"
  let ?z = "replicate ?N (replicate ?N (0::int))"
  let ?fa = "\<lambda>i j (a::int list list). a[i := (a ! i)[j := wrap32 (int i + int j)]]"
  let ?fb = "\<lambda>i j (b::int list list). b[i := (b ! i)[j := wrap32 (wrap32 (int i * int j) + 1)]]"
  have inner: "fold (\<lambda>j (a, b). (?fa i j a, ?fb i j b)) [0..<?N]
      = (\<lambda>(a, b). (fold (?fa i) [0..<?N] a, fold (?fb i) [0..<?N] b))" for i
    by (rule ext) (simp add: fold_pair split: prod.split)
  have "init_matrices sz (?z, ?z)
      = fold (\<lambda>i. fold (\<lambda>j (a, b). (?fa i j a, ?fb i j b)) [0..<?N]) [0..<?N] (?z, ?z)"
    by (simp add: init_matrices_def for_loop_fold_fun set2_def)
  also have "\<dots> = fold (\<lambda>i (a, b). (fold (?fa i) [0..<?N] a, fold (?fb i) [0..<?N] b))
                      [0..<?N] (?z, ?z)"
    by (simp only: inner)
  also have "\<dots> = (fold (\<lambda>i. fold (?fa i) [0..<?N]) [0..<?N] ?z,
                     fold (\<lambda>i. fold (?fb i) [0..<?N]) [0..<?N] ?z)"
    by (rule fold_pair)
  finally show ?thesis
    by (simp add: fill_matrix)
qed

lemma multiply_eq:
  assumes "0 \<le> sz"
  shows "multiply sz matrix_a matrix_b (replicate (nat sz) (replicate (nat sz) 0))
       = map (\<lambda>i. map (\<lambda>j. wrap32 (\<Sum>k = 0..<nat sz. matrix_a ! i ! k * matrix_b ! k ! j))
                      [0..<nat sz]) [0..<nat sz]"
proof -
  let ?N = "nat sz"
  let ?z = "replicate ?N (replicate ?N (0::int))"
  have "multiply sz matrix_a matrix_b ?z
      = fold (\<lambda>i r. fold (\<lambda>k r. fold (\<lambda>j r.
            r[i := (r ! i)[j := wrap32 (r ! i ! j + wrap32 (matrix_a ! i ! k * matrix_b ! k ! j))]])
            [0..<?N] r) [0..<?N] r) [0..<?N] ?z"
    using assms by (simp add: multiply_def for_loop_fold_fun set2_def get2_def)
  also have "\<dots> = map (\<lambda>i. fold (\<lambda>k row. fold (\<lambda>j row.
            row[j := wrap32 (row ! j + wrap32 (matrix_a ! i ! k * matrix_b ! k ! j))])
            [0..<?N] row) [0..<?N] (?z ! i)) [0..<?N]"
    by (rule multiply_rows [where h = "\<lambda>i k j x.
          wrap32 (x + wrap32 (matrix_a ! i ! k * matrix_b ! k ! j))"]) simp
  also have "\<dots> = map (\<lambda>i. map (\<lambda>j. wrap32 (\<Sum>k = 0..<?N. matrix_a ! i ! k * matrix_b ! k ! j))
                      [0..<?N]) [0..<?N]"
    by (rule map_cong) (simp_all add: row_product)
  finally show ?thesis .
qed

lemma matrix_multiplication_wrap:
  assumes "0 \<le> sz" "sz \<le> INT_MAX"
  shows "matrix_multiplication sz
       = Some (map (\<lambda>i. map (\<lambda>j. wrap32 (mat_product (nat sz) i j)) [0..<nat sz]) [0..<nat sz])"
proof -
  let ?N = "nat sz"
  let ?A = "map (\<lambda>i. map (\<lambda>j. wrap32 (int i + int j)) [0..<?N]) [0..<?N]"
  let ?B = "map (\<lambda>i. map (\<lambda>j. wrap32 (wrap32 (int i * int j) + 1)) [0..<?N]) [0..<?N]"
  have AB: "(\<Sum>k = 0..<?N. ?A ! i ! k * ?B ! k ! j)
      = (\<Sum>k = 0..<?N. wrap32 (int i + int k) * wrap32 (wrap32 (int k * int j) + 1))"
    if "i < ?N" "j < ?N" for i j
    using that by (intro sum.cong refl) simp
  have entry: "wrap32 (\<Sum>k = 0..<?N. wrap32 (int i + int k) * wrap32 (wrap32 (int k * int j) + 1))
      = wrap32 (mat_product ?N i j)" for i j
  proof -
    have "wrap32 (\<Sum>k = 0..<?N. wrap32 (int i + int k) * wrap32 (wrap32 (int k * int j) + 1))
        = wrap32 (\<Sum>k = 0..<?N.
            wrap32 (wrap32 (int i + int k) * wrap32 (wrap32 (int k * int j) + 1)))"
      by (simp only: wrap32_sum)
    also have "\<dots> = wrap32 (\<Sum>k = 0..<?N. wrap32 ((int i + int k) * (int k * int j + 1)))"
      by (simp only: wrap32_mult_left wrap32_mult_right wrap32_add_left)
    also have "\<dots> = wrap32 (mat_product ?N i j)"
      by (simp only: wrap32_sum mat_product_def mat_A_def mat_B_def)
    finally show ?thesis .
  qed
  have "matrix_multiplication sz = Some (multiply sz ?A ?B (replicate ?N (replicate ?N 0)))"
    using assms by (simp add: matrix_multiplication_def new_vector_int init_matrices_eq)
  also have "multiply sz ?A ?B (replicate ?N (replicate ?N 0))
      = map (\<lambda>i. map (\<lambda>j. wrap32 (\<Sum>k = 0..<?N. ?A ! i ! k * ?B ! k ! j)) [0..<?N]) [0..<?N]"
    using assms(1) by (rule multiply_eq)
  also have "\<dots> = map (\<lambda>i. map (\<lambda>j. wrap32 (mat_product ?N i j)) [0..<?N]) [0..<?N]"
  proof (rule map_cong [OF refl], rule map_cong [OF refl])
    fix i j
    assume "i \<in> set [0..<?N]" "j \<in> set [0..<?N]"
    then have "i < ?N" "j < ?N" by simp_all
    then show "wrap32 (\<Sum>k = 0..<?N. ?A ! i ! k * ?B ! k ! j) = wrap32 (mat_product ?N i j)"
      by (simp only: AB entry)
  qed
  finally show ?thesis .
qed

lemma mat_product_Suc:
  "mat_product (Suc n) i j = mat_product n i j + (int i + int n) * (int n * int j + 1)"
  by (simp add: mat_product_def mat_A_def mat_B_def)

lemma mat_product_closed:
  "6 * mat_product n i j
     = 3 * int i * int j * (int n * int n - int n) + 6 * int i * int n
       + int j * (2 * (int n * int n * int n) - 3 * (int n * int n) + int n)
       + 3 * (int n * int n - int n)"
proof (induction n)
  case 0
  show ?case by (simp add: mat_product_def)
next
  case (Suc n)
  show ?case
    unfolding mat_product_Suc using Suc.IH by (simp add: algebra_simps)
qed

lemma mat_product_226: "mat_product 226 225 225 = 2147217525"
  using mat_product_closed [of 226 225 225] by simp

lemma mat_product_227: "mat_product 227 226 226 = 2185593455"
  using mat_product_closed [of 227 226 226] by simp

lemma mat_product_nonneg: "0 \<le> mat_product n i j"
  by (simp add: mat_product_def mat_A_def mat_B_def sum_nonneg)

lemma mat_product_bound:
  assumes "n \<le> 226" "i < n" "j < n"
  shows "mat_product n i j \<le> 2147217525"
proof -
  have "mat_product n i j \<le> (\<Sum>k = 0..<n. mat_A 225 k * mat_B k 225)"
    unfolding mat_product_def mat_A_def mat_B_def
    using assms by (intro sum_mono mult_mono add_mono mult_left_mono) simp_all
  also have "\<dots> \<le> (\<Sum>k = 0..<226. mat_A 225 k * mat_B k 225)"
    using assms(1) by (intro sum_mono2) (simp_all add: mat_A_def mat_B_def)
  also have "\<dots> = 2147217525"
    using mat_product_226 by (simp add: mat_product_def)
  finally show ?thesis .
qed

lemma product_matrix_exact:
  assumes "n \<le> 226"
  shows "map (\<lambda>i. map (\<lambda>j. wrap32 (mat_product n i j)) [0..<n]) [0..<n] = product_matrix n"
  unfolding product_matrix_def
proof (rule map_cong [OF refl], rule map_cong [OF refl])
  fix i j
  assume "i \<in> set [0..<n]" "j \<in> set [0..<n]"
  then have "mat_product n i j \<le> 2147217525"
    using assms by (intro mat_product_bound) simp_all
  then show "wrap32 (mat_product n i j) = mat_product n i j"
    using mat_product_nonneg [of n i j] by (intro wrap32_id) simp_all
qed

lemma product_matrix_3: "product_matrix 3 = [[3, 8, 13], [6, 14, 22], [9, 20, 31]]"
  by (simp add: product_matrix_def mat_product_def mat_A_def mat_B_def eval_nat_numeral)

lemma matrix_multiplication_3:
  "matrix_multiplication 3 = Some [[3, 8, 13], [6, 14, 22], [9, 20, 31]]"
  using matrix_multiplication_wrap [of 3] product_matrix_exact [of 3]
  by (simp add: INT_MAX_def product_matrix_3)

text \<open>
  Claim C6, as amended. For every \<open>size\<close> from 0 to \<open>INT_MAX\<close>,
  \<^verbatim>\<open>matrix_multiplication(size)\<close> returns the \<open>size\<close> by \<open>size\<close> matrix whose entry \<open>(i, j)\<close>
  is the entry of the product of \<open>A[i][j] = i + j\<close> and \<open>B[i][j] = i * j + 1\<close> reduced to
  32 bits; for \<open>size \<le> 226\<close> no entry leaves the range of \<^verbatim>\<open>int\<close> and the result is
  the product itself, whatever the order of the loops. For \<open>size = 3\<close> row 0 is
  \<open>[3, 8, 13]\<close>.
\<close>

theorem matrix_multiplication_product:
  assumes "0 \<le> sz" "sz \<le> INT_MAX"
  shows "matrix_multiplication sz
           = Some (map (\<lambda>i. map (\<lambda>j. wrap32 (mat_product (nat sz) i j)) [0..<nat sz])
                    [0..<nat sz])
       \<and> (sz \<le> 226 \<longrightarrow> matrix_multiplication sz = Some (product_matrix (nat sz)))
       \<and> (sz = 3 \<longrightarrow> map_option (\<lambda>m. m ! 0) (matrix_multiplication sz) = Some [3, 8, 13])"
proof -
  have w: "matrix_multiplication sz
      = Some (map (\<lambda>i. map (\<lambda>j. wrap32 (mat_product (nat sz) i j)) [0..<nat sz]) [0..<nat sz])"
    using assms by (rule matrix_multiplication_wrap)
  moreover have "matrix_multiplication sz = Some (product_matrix (nat sz))" if "sz \<le> 226"
    using that w by (simp add: product_matrix_exact)
  moreover have "map_option (\<lambda>m. m ! 0) (matrix_multiplication sz) = Some [3, 8, 13]" if "sz = 3"
    using that by (simp add: matrix_multiplication_3)
  ultimately show ?thesis by blast
qed

theorem matrix_multiplication_product_witness:
  "(0::int) \<le> 3 \<and> 3 \<le> INT_MAX \<and> (3::int) \<le> 226
   \<and> matrix_multiplication 3 = Some (product_matrix 3)
   \<and> product_matrix 3 = [[3, 8, 13], [6, 14, 22], [9, 20, 31]]"
  using matrix_multiplication_product [of 3]
  by (simp add: INT_MAX_def product_matrix_3 matrix_multiplication_3)

text \<open>
  The claim C6 as stated fails at \<open>size = 227\<close>: the entry \<open>(226, 226)\<close> of the product
  is above \<open>INT_MAX\<close>, and the kernel returns a negative number there.
\<close>

theorem matrix_multiplication_overflow:
  "matrix_multiplication 227 \<noteq> None
   \<and> the (matrix_multiplication 227) ! 226 ! 226 = - 2109373841
   \<and> product_matrix 227 ! 226 ! 226 = 2185593455"
proof -
  have "matrix_multiplication 227
      = Some (map (\<lambda>i. map (\<lambda>j. wrap32 (mat_product 227 i j)) [0..<227]) [0..<227])"
    using matrix_multiplication_wrap [of 227] by (simp add: INT_MAX_def)
  moreover have "wrap32 (mat_product 227 226 226) = - 2109373841"
    by (simp add: mat_product_227 wrap32_def)
  ultimately show ?thesis
    by (simp add: product_matrix_def mat_product_227 del: upt_rec_numeral)
qed

lemma vec_get_first: "xs \<noteq> [] \<Longrightarrow> vec_get xs 0 = Some (xs ! 0)"
  by (simp add: vec_get_def)

text \<open>
  Claim C8. For every \<open>size \<ge> 1\<close> and every \<open>iterations \<ge> 1\<close>, the first component of what
  \<^verbatim>\<open>benchmark_matrix_mult(size, iterations)\<close> returns is the single entry at row 0, column 0
  of the matrix that \<^verbatim>\<open>matrix_multiplication(size)\<close> returns.
\<close>

theorem benchmark_matrix_mult_sample:
  assumes "1 \<le> sz" "sz \<le> INT_MAX" "1 \<le> iterations"
  shows "\<exists>m. matrix_multiplication sz = Some m
       \<and> map_option fst (benchmark_matrix_mult sz iterations elapsed_ns) = Some (m ! 0 ! 0)"
proof -
  let ?m = "map (\<lambda>i. map (\<lambda>j. wrap32 (mat_product (nat sz) i j)) [0..<nat sz]) [0..<nat sz]"
  have m: "matrix_multiplication sz = Some ?m"
    using assms by (intro matrix_multiplication_wrap) simp_all
  have loop: "bench_loop 0 iterations (Some ?m) [] = Some ?m"
    using assms by (intro bench_loop_last) simp
  have n: "0 < nat sz" using assms by simp
  then have g1: "vec_get ?m 0 = Some (?m ! 0)" by (intro vec_get_first) simp
  have "?m ! 0 \<noteq> []" using n by simp
  then have g2: "vec_get (?m ! 0) 0 = Some (?m ! 0 ! 0)" by (rule vec_get_first)
  have "map_option fst (benchmark_matrix_mult sz iterations elapsed_ns) = Some (?m ! 0 ! 0)"
    unfolding benchmark_matrix_mult_def m loop using g1 g2 by simp
  with m show ?thesis by blast
qed

theorem benchmark_matrix_mult_sample_witness:
  "(1::int) \<le> 3 \<and> 3 \<le> INT_MAX \<and> (1::int) \<le> 2
   \<and> matrix_multiplication 3 = Some [[3, 8, 13], [6, 14, 22], [9, 20, 31]]
   \<and> map_option fst (benchmark_matrix_mult 3 2 1000) = Some 3"
  using benchmark_matrix_mult_sample [of 3 2 1000]
  by (auto simp: INT_MAX_def matrix_multiplication_3)

section \<open>Prime counting\<close>

lemma floor_sqrt_bounds:
  "floor_sqrt n * floor_sqrt n \<le> n \<and> n < (floor_sqrt n + 1) * (floor_sqrt n + 1)"
proof (induction n)
  case 0
  show ?case by simp
next
  case (Suc n)
  then show ?case by (auto simp: Let_def)
qed

lemma floor_sqrt_le_iff: "d \<le> floor_sqrt n \<longleftrightarrow> d * d \<le> n"
proof
  assume "d \<le> floor_sqrt n"
  then have "d * d \<le> floor_sqrt n * floor_sqrt n" by (simp add: mult_le_mono)
  with floor_sqrt_bounds [of n] show "d * d \<le> n" by simp
next
  assume a: "d * d \<le> n"
  show "d \<le> floor_sqrt n"
  proof (rule ccontr)
    assume "\<not> d \<le> floor_sqrt n"
    then have "floor_sqrt n + 1 \<le> d" by simp
    then have "(floor_sqrt n + 1) * (floor_sqrt n + 1) \<le> d * d" by (intro mult_le_mono)
    with floor_sqrt_bounds [of n] a show False by linarith
  qed
qed

lemma floor_sqrt_le: "floor_sqrt n \<le> n"
proof -
  have "floor_sqrt n \<le> floor_sqrt n * floor_sqrt n" by (cases "floor_sqrt n") simp_all
  moreover have "floor_sqrt n * floor_sqrt n \<le> n" using floor_sqrt_bounds [of n] by blast
  ultimately show ?thesis by (rule order_trans)
qed

lemma int_floor_sqrt_le_iff:
  assumes "0 \<le> d" "0 \<le> x"
  shows "d \<le> int (floor_sqrt (nat x)) \<longleftrightarrow> d * d \<le> x"
proof -
  have "d \<le> int (floor_sqrt (nat x)) \<longleftrightarrow> nat d \<le> floor_sqrt (nat x)"
    using assms by linarith
  also have "\<dots> \<longleftrightarrow> nat d * nat d \<le> nat x" by (rule floor_sqrt_le_iff)
  also have "\<dots> \<longleftrightarrow> d * d \<le> x"
    using assms by (simp add: nat_mult_distrib [symmetric] nat_le_eq_zle)
  finally show ?thesis .
qed

lemma no_small_divisor_iff:
  "0 \<le> x \<Longrightarrow> no_small_divisor x \<longleftrightarrow> (\<forall>d. 2 \<le> d \<and> d * d \<le> x \<longrightarrow> \<not> d dvd x)"
  unfolding no_small_divisor_def Ball_def
  by (auto simp: int_floor_sqrt_le_iff)

lemma c_mod_nonneg: "0 \<le> a \<Longrightarrow> 0 < b \<Longrightarrow> c_mod a b = a mod b"
  by (simp add: c_mod_def c_div_def sgn_if minus_mult_div_eq_mod)

lemma trial_loop_eq:
  "2 \<le> i \<Longrightarrow> s \<le> 5000 \<Longrightarrow> 0 \<le> num \<Longrightarrow>
   trial_loop i s num = Some (\<forall>d\<in>{i..s}. \<not> d dvd num)"
proof (induction "nat (s + 1 - i)" arbitrary: i)
  case 0
  then have "\<not> i \<le> s" by simp
  then show ?case by (subst trial_loop.simps) simp
next
  case (Suc m)
  then have le: "i \<le> s" by simp
  have w: "wrap32 (i + 1) = i + 1" using le Suc.prems by (intro wrap32_id) simp_all
  have c: "c_mod num i = 0 \<longleftrightarrow> i dvd num"
    using Suc.prems by (simp add: c_mod_nonneg dvd_eq_mod_eq_0)
  have m: "m = nat (s + 1 - (i + 1))" using Suc.hyps(2) by simp
  have IH: "trial_loop (i + 1) s num = Some (\<forall>d\<in>{i + 1..s}. \<not> d dvd num)"
    using Suc.hyps(1) [OF m] le Suc.prems by simp
  have S: "{i..s} = insert i {i + 1..s}" using le by (rule int_interval_first)
  show ?case
    by (subst trial_loop.simps) (simp add: le w c IH S)
qed

lemma trial_loop_num:
  assumes "0 \<le> num" "num \<le> 5000"
  shows "sqrt_int num \<bind> (\<lambda>sqrt_num. trial_loop 2 sqrt_num num) = Some (no_small_divisor num)"
proof -
  have "floor_sqrt (nat num) \<le> nat num" by (rule floor_sqrt_le)
  then have "int (floor_sqrt (nat num)) \<le> 5000" using assms by linarith
  then have "trial_loop 2 (int (floor_sqrt (nat num))) num = Some (no_small_divisor num)"
    unfolding no_small_divisor_def using assms(1) by (intro trial_loop_eq) simp_all
  then show ?thesis using assms(1) by (simp add: sqrt_int_def)
qed

lemma prime_count_loop_eq:
  "2 \<le> num \<Longrightarrow> num \<le> limit + 1 \<Longrightarrow> limit \<le> 5000 \<Longrightarrow> 0 \<le> count \<Longrightarrow>
   count + (limit + 1 - num) \<le> 5000 \<Longrightarrow>
   prime_count_loop num limit count
     = Some (count + int (length (filter no_small_divisor [num..limit])))"
proof (induction "nat (limit + 1 - num)" arbitrary: num count)
  case 0
  then have "\<not> num \<le> limit" by simp
  then show ?case by (subst prime_count_loop.simps) simp
next
  case (Suc m)
  then have le: "num \<le> limit" by simp
  have w: "wrap32 (num + 1) = num + 1" using le Suc.prems by (intro wrap32_id) simp_all
  have wc: "wrap32 (count + 1) = count + 1" using le Suc.prems by (intro wrap32_id) simp_all
  have t: "sqrt_int num \<bind> (\<lambda>sqrt_num. trial_loop 2 sqrt_num num) = Some (no_small_divisor num)"
    using le Suc.prems by (intro trial_loop_num) simp_all
  have m: "m = nat (limit + 1 - (num + 1))" using Suc.hyps(2) by simp
  have IH: "prime_count_loop (num + 1) limit c
      = Some (c + int (length (filter no_small_divisor [num + 1..limit])))"
    if "0 \<le> c" "c \<le> count + 1" for c
    using Suc.hyps(1) [OF m, of c] le Suc.prems that by simp
  have U: "[num..limit] = num # [num + 1..limit]" using le by (rule upto_rec1)
  have "prime_count_loop num limit count
      = (sqrt_int num \<bind> (\<lambda>sqrt_num. trial_loop 2 sqrt_num num))
          \<bind> (\<lambda>is_prime. prime_count_loop (wrap32 (num + 1)) limit
                  (if is_prime then wrap32 (count + 1) else count))"
    by (subst prime_count_loop.simps) (simp add: le)
  also have "\<dots>
      = prime_count_loop (num + 1) limit (if no_small_divisor num then count + 1 else count)"
    unfolding t by (simp add: w wc)
  also have "\<dots> = Some (count + int (length (filter no_small_divisor [num..limit])))"
    using Suc.prems by (simp add: IH U)
  finally show ?case .
qed

lemma vec_set_inside:
  "0 \<le> j \<Longrightarrow> nat j < length xs \<Longrightarrow> vec_set xs j v = Some (xs[nat j := v])"
  by (simp add: vec_set_def)

lemma vec_get_inside:
  "0 \<le> j \<Longrightarrow> nat j < length xs \<Longrightarrow> vec_get xs j = Some (xs ! nat j)"
  by (simp add: vec_get_def)

lemma multiple_step:
  fixes i j x :: int
  assumes "0 < i" "x \<noteq> j"
  shows "(j + i \<le> x \<and> i dvd x - (j + i)) \<longleftrightarrow> (j \<le> x \<and> i dvd x - j)"
proof -
  have e: "i dvd x - j \<longleftrightarrow> i dvd x - (j + i)"
  proof -
    have "i dvd (x - (j + i)) + i \<longleftrightarrow> i dvd x - (j + i)" by (rule dvd_add_triv_right_iff)
    moreover have "(x - (j + i)) + i = x - j" by simp
    ultimately show ?thesis by simp
  qed
  have "j + i \<le> x" if "j \<le> x" "i dvd x - j"
  proof -
    have "0 < x - j" using that(1) assms(2) by simp
    with that(2) have "i \<le> x - j" by (rule zdvd_imp_le)
    then show ?thesis by simp
  qed
  moreover have "j \<le> x" if "j + i \<le> x" using that assms(1) by simp
  ultimately show ?thesis using e by blast
qed

lemma sieve_inner_eq:
  "0 < i \<Longrightarrow> 0 \<le> j \<Longrightarrow> i \<le> 5001 \<Longrightarrow> 0 \<le> limit \<Longrightarrow> limit \<le> 5000 \<Longrightarrow>
   length is_prime = nat limit + 1 \<Longrightarrow>
   \<exists>is_prime'. sieve_inner j i limit is_prime = Some is_prime'
     \<and> length is_prime' = length is_prime
     \<and> (\<forall>x<length is_prime.
           is_prime' ! x = (is_prime ! x \<and> \<not> (j \<le> int x \<and> i dvd int x - j)))"
proof (induction "nat (limit + 1 - j)" arbitrary: j is_prime rule: less_induct)
  case less
  show ?case
  proof (cases "j \<le> limit")
    case False
    then have "sieve_inner j i limit is_prime = Some is_prime"
      by (subst sieve_inner.simps) simp
    moreover have "\<not> j \<le> int x" if "x < length is_prime" for x
      using that False less.prems by simp
    ultimately show ?thesis by simp
  next
    case True
    let ?p = "is_prime[nat j := False]"
    have s: "vec_set is_prime j False = Some ?p"
      using True less.prems by (intro vec_set_inside) simp_all
    have w: "wrap32 (j + i) = j + i"
      using True less.prems by (intro wrap32_id) simp_all
    have "nat (limit + 1 - (j + i)) < nat (limit + 1 - j)"
      using True less.prems by simp
    moreover have "0 \<le> j + i" "length ?p = nat limit + 1"
      using less.prems by simp_all
    ultimately obtain q where q: "sieve_inner (j + i) i limit ?p = Some q"
      and lq: "length q = length ?p"
      and nq: "\<forall>x<length ?p. q ! x = (?p ! x \<and> \<not> (j + i \<le> int x \<and> i dvd int x - (j + i)))"
      using less.hyps [of "j + i" ?p] less.prems by blast
    have c: "sieve_inner j i limit is_prime = Some q"
      using True s w q by (subst sieve_inner.simps) simp
    have "q ! x = (is_prime ! x \<and> \<not> (j \<le> int x \<and> i dvd int x - j))"
      if x: "x < length is_prime" for x
    proof (cases "int x = j")
      case True
      then have "x = nat j" by simp
      with nq x True show ?thesis by simp
    next
      case False
      then have "x \<noteq> nat j" using less.prems(2) by auto
      then have A: "?p ! x = is_prime ! x" by simp
      have B: "(j + i \<le> int x \<and> i dvd int x - (j + i)) \<longleftrightarrow> (j \<le> int x \<and> i dvd int x - j)"
        using less.prems(1) False by (rule multiple_step)
      have C: "q ! x = (?p ! x \<and> \<not> (j + i \<le> int x \<and> i dvd int x - (j + i)))"
        using nq x by simp
      show ?thesis unfolding C A B ..
    qed
    with c lq show ?thesis by simp
  qed
qed

lemma sieved_step_marked:
  assumes "sieved i limit is_prime" "2 \<le> i" "length q = length is_prime"
    and "\<forall>x<length is_prime. q ! x = (is_prime ! x \<and> \<not> (i * i \<le> int x \<and> i dvd int x - i * i))"
  shows "sieved (i + 1) limit q"
  unfolding sieved_def
proof (intro conjI ballI)
  show "length q = nat limit + 1" using assms(1,3) by (simp add: sieved_def)
next
  fix x
  assume x: "x \<in> {0..limit}"
  then have n: "nat x < length is_prime" "int (nat x) = x"
    using assms(1) by (auto simp: sieved_def)
  have old: "is_prime ! nat x = (2 \<le> x \<and> (\<forall>d\<in>{2..<i}. d * d \<le> x \<longrightarrow> \<not> d dvd x))"
    using assms(1) x by (simp add: sieved_def)
  have new: "q ! nat x = (is_prime ! nat x \<and> \<not> (i * i \<le> x \<and> i dvd x - i * i))"
    using assms(4) n by auto
  have d: "i dvd x - i * i \<longleftrightarrow> i dvd x" by (simp add: dvd_diff_left_iff)
  have S: "{2..<i + 1} = insert i {2..<i}" using assms(2) by auto
  show "q ! nat x = (2 \<le> x \<and> (\<forall>d\<in>{2..<i + 1}. d * d \<le> x \<longrightarrow> \<not> d dvd x))"
    unfolding new old d S by auto
qed

lemma sieved_step_unmarked:
  assumes "sieved i limit is_prime" "2 \<le> i" "i \<le> limit" "\<not> is_prime ! nat i"
  shows "sieved (i + 1) limit is_prime"
  unfolding sieved_def
proof (intro conjI ballI)
  show "length is_prime = nat limit + 1" using assms(1) by (simp add: sieved_def)
next
  fix x
  assume x: "x \<in> {0..limit}"
  have old: "is_prime ! nat x = (2 \<le> x \<and> (\<forall>d\<in>{2..<i}. d * d \<le> x \<longrightarrow> \<not> d dvd x))"
    using assms(1) x by (simp add: sieved_def)
  have "is_prime ! nat i = (2 \<le> i \<and> (\<forall>d\<in>{2..<i}. d * d \<le> i \<longrightarrow> \<not> d dvd i))"
    using assms(1,2,3) by (simp add: sieved_def)
  with assms(2,4) obtain d where d: "2 \<le> d" "d < i" "d * d \<le> i" "d dvd i" by auto
  have "\<not> (i * i \<le> x \<and> i dvd x)" if "is_prime ! nat x"
  proof
    assume a: "i * i \<le> x \<and> i dvd x"
    have "i \<le> i * i" using assms(2) by (simp add: self_le_power [of i 2, unfolded power2_eq_square])
    with d a have "d * d \<le> x" by linarith
    moreover from d a have "d dvd x" by (blast intro: dvd_trans)
    ultimately have "d * d \<le> x" "d dvd x" .
    with that old d show False by auto
  qed
  moreover have S: "{2..<i + 1} = insert i {2..<i}" using assms(2) by auto
  ultimately show "is_prime ! nat x = (2 \<le> x \<and> (\<forall>d\<in>{2..<i + 1}. d * d \<le> x \<longrightarrow> \<not> d dvd x))"
    unfolding S old by auto
qed

lemma square_bound:
  fixes i :: int
  assumes "0 \<le> i" "i \<le> 5001"
  shows "i * i \<le> 25010001"
proof -
  have "i * i \<le> 5001 * 5001" using assms by (intro mult_mono) simp_all
  then show ?thesis by simp
qed

lemma self_le_square: "0 \<le> i \<Longrightarrow> i \<le> i * i" for i :: int
  by (cases "i = 0") (simp_all add: mult_le_cancel_left1 [symmetric])

lemma sieve_outer_eq:
  "2 \<le> i \<Longrightarrow> (i - 1) * (i - 1) \<le> limit \<Longrightarrow> limit \<le> 5000 \<Longrightarrow> sieved i limit is_prime \<Longrightarrow>
   \<exists>is_prime' i'. sieve_outer i limit is_prime = Some is_prime'
     \<and> sieved i' limit is_prime' \<and> limit < i' * i' \<and> 2 \<le> i'"
proof (induction "nat (limit + 2 - i)" arbitrary: i is_prime rule: less_induct)
  case less
  have "0 \<le> i - 1" using less.prems by simp
  from self_le_square [OF this] less.prems(2) have i1: "i - 1 \<le> limit"
    by (rule order_trans)
  then have lim: "0 \<le> limit" "i \<le> 5001" using less.prems by simp_all
  have len: "length is_prime = nat limit + 1" using less.prems(4) by (simp add: sieved_def)
  have lo: "- 2147483648 \<le> i * i" by (rule order_trans [of _ 0]) simp_all
  have hi: "i * i \<le> 2147483647"
    using square_bound [of i] lim less.prems by simp
  have w: "wrap32 (i * i) = i * i" using lo hi by (rule wrap32_id)
  show ?case
  proof (cases "i * i \<le> limit")
    case False
    then have "sieve_outer i limit is_prime = Some is_prime"
      by (subst sieve_outer.simps) (simp add: w)
    with False less.prems show ?thesis by auto
  next
    case True
    have "0 \<le> i" using less.prems by simp
    from self_le_square [OF this] True have il: "i \<le> limit" by (rule order_trans)
    have g: "vec_get is_prime i = Some (is_prime ! nat i)"
      using il less.prems len by (intro vec_get_inside) simp_all
    have w1: "wrap32 (i + 1) = i + 1" using lim less.prems by (intro wrap32_id) simp_all
    have m: "nat (limit + 2 - (i + 1)) < nat (limit + 2 - i)" using il by simp
    have p: "2 \<le> i + 1" "(i + 1 - 1) * (i + 1 - 1) \<le> limit" using less.prems True by simp_all
    show ?thesis
    proof (cases "is_prime ! nat i")
      case marked: True
      obtain q where q: "sieve_inner (i * i) i limit is_prime = Some q"
        and lq: "length q = length is_prime"
        and nq: "\<forall>x<length is_prime.
           q ! x = (is_prime ! x \<and> \<not> (i * i \<le> int x \<and> i dvd int x - i * i))"
        using sieve_inner_eq [of i "i * i" limit is_prime] less.prems lim len by auto
      have "sieved (i + 1) limit q"
        using less.prems(4,1) lq nq by (rule sieved_step_marked)
      from less.hyps [OF m p less.prems(3) this]
      obtain r i' where "sieve_outer (i + 1) limit q = Some r" "sieved i' limit r"
        "limit < i' * i'" "2 \<le> i'" by blast
      moreover have "sieve_outer i limit is_prime = sieve_outer (i + 1) limit q"
        using True marked g q by (subst sieve_outer.simps) (simp add: w w1)
      ultimately show ?thesis by auto
    next
      case unmarked: False
      have "sieved (i + 1) limit is_prime"
        using less.prems(4,1) il unmarked by (rule sieved_step_unmarked)
      from less.hyps [OF m p less.prems(3) this]
      obtain r i' where "sieve_outer (i + 1) limit is_prime = Some r" "sieved i' limit r"
        "limit < i' * i'" "2 \<le> i'" by blast
      moreover have "sieve_outer i limit is_prime = sieve_outer (i + 1) limit is_prime"
        using True unmarked g by (subst sieve_outer.simps) (simp add: w w1)
      ultimately show ?thesis by auto
    qed
  qed
qed

lemma sieved_final:
  assumes "sieved i limit is_prime" "limit < i * i" "2 \<le> i" "2 \<le> x" "x \<le> limit"
  shows "is_prime ! nat x = no_small_divisor x"
proof -
  have "is_prime ! nat x = (2 \<le> x \<and> (\<forall>d\<in>{2..<i}. d * d \<le> x \<longrightarrow> \<not> d dvd x))"
    using assms(1,4,5) by (simp add: sieved_def)
  moreover have "d < i" if "2 \<le> d" "d * d \<le> x" for d
  proof (rule ccontr)
    assume "\<not> d < i"
    then have "i * i \<le> d * d" using assms(3) by (intro mult_mono) simp_all
    with that assms(2,5) show False by simp
  qed
  ultimately show ?thesis
    using assms(4) by (auto simp: no_small_divisor_iff)
qed

lemma sieve_count_eq:
  "2 \<le> i \<Longrightarrow> i \<le> limit + 1 \<Longrightarrow> limit \<le> 5000 \<Longrightarrow> length is_prime = nat limit + 1 \<Longrightarrow>
   0 \<le> count \<Longrightarrow> count + (limit + 1 - i) \<le> 5000 \<Longrightarrow>
   sieve_count i limit is_prime count
     = Some (count + int (length (filter (\<lambda>x. is_prime ! nat x) [i..limit])))"
proof (induction "nat (limit + 1 - i)" arbitrary: i count)
  case 0
  then have "\<not> i \<le> limit" by simp
  then show ?case by (subst sieve_count.simps) simp
next
  case (Suc m)
  then have le: "i \<le> limit" by simp
  have w: "wrap32 (i + 1) = i + 1" using le Suc.prems by (intro wrap32_id) simp_all
  have wc: "wrap32 (count + 1) = count + 1" using le Suc.prems by (intro wrap32_id) simp_all
  have g: "vec_get is_prime i = Some (is_prime ! nat i)"
    using le Suc.prems by (intro vec_get_inside) simp_all
  have m: "m = nat (limit + 1 - (i + 1))" using Suc.hyps(2) by simp
  have IH: "sieve_count (i + 1) limit is_prime c
      = Some (c + int (length (filter (\<lambda>x. is_prime ! nat x) [i + 1..limit])))"
    if "0 \<le> c" "c \<le> count + 1" for c
    using Suc.hyps(1) [OF m, of c] le Suc.prems that by simp
  have U: "[i..limit] = i # [i + 1..limit]" using le by (rule upto_rec1)
  have "sieve_count i limit is_prime count
      = sieve_count (i + 1) limit is_prime (if is_prime ! nat i then count + 1 else count)"
    by (subst sieve_count.simps) (simp add: le w wc g)
  also have "\<dots> = Some (count + int (length (filter (\<lambda>x. is_prime ! nat x) [i..limit])))"
    using Suc.prems by (simp add: IH U)
  finally show ?case .
qed

lemma sieved_initial:
  assumes "2 \<le> limit"
  shows "sieved 2 limit ((replicate (nat limit + 1) True)[1 := False, 0 := False])"
  unfolding sieved_def
proof (intro conjI ballI)
  show "length ((replicate (nat limit + 1) True)[1 := False, 0 := False]) = nat limit + 1"
    by simp
next
  fix x
  assume x: "x \<in> {0..limit}"
  then have n: "nat x < nat limit + 1" by auto
  have "(replicate (nat limit + 1) True)[1 := False, 0 := False] ! nat x = (2 \<le> x)"
  proof (cases "x = 0 \<or> x = 1")
    case True
    then show ?thesis using assms by (auto simp: nth_list_update)
  next
    case False
    with x have "2 \<le> x" "nat x \<noteq> 0" "nat x \<noteq> 1" by auto
    with n show ?thesis by (simp add: nth_list_update)
  qed
  then show "(replicate (nat limit + 1) True)[1 := False, 0 := False] ! nat x
      = (2 \<le> x \<and> (\<forall>d\<in>{2..<2}. d * d \<le> x \<longrightarrow> \<not> d dvd x))"
    by simp
qed

lemma prime_count_value:
  assumes "2 \<le> limit" "limit \<le> 5000"
  shows "prime_count limit = Some (int (length (filter no_small_divisor [2..limit])))"
  using assms prime_count_loop_eq [of 2 limit 0] by (simp add: prime_count_def)

lemma prime_count_optimized_value:
  assumes "2 \<le> limit" "limit \<le> 5000"
  shows "prime_count_optimized limit = Some (int (length (filter no_small_divisor [2..limit])))"
proof -
  let ?p = "(replicate (nat limit + 1) True)[1 := False, 0 := False]"
  have w: "wrap32 (limit + 1) = limit + 1" using assms by (intro wrap32_id) simp_all
  have v: "new_vector (limit + 1) True = Some (replicate (nat limit + 1) True)"
    using assms by (simp add: new_vector_def size_t_of_int_def fits_size_def nat_add_distrib)
  have s1: "vec_set (replicate (nat limit + 1) True) 1 False
      = Some ((replicate (nat limit + 1) True)[1 := False])"
    using assms by (simp add: vec_set_def)
  have s0: "vec_set ((replicate (nat limit + 1) True)[1 := False]) 0 False = Some ?p"
    by (simp add: vec_set_def)
  have "sieved 2 limit ?p" using assms(1) by (rule sieved_initial)
  then obtain r i' where r: "sieve_outer 2 limit ?p = Some r" and f: "sieved i' limit r"
    "limit < i' * i'" "2 \<le> i'"
    using sieve_outer_eq [of 2 limit ?p] assms by auto
  have lr: "length r = nat limit + 1" using f(1) by (simp add: sieved_def)
  have c: "sieve_count 2 limit r 0
      = Some (int (length (filter (\<lambda>x. r ! nat x) [2..limit])))"
    using sieve_count_eq [of 2 limit r 0] assms lr by simp
  have "filter (\<lambda>x. r ! nat x) [2..limit] = filter no_small_divisor [2..limit]"
    using f by (intro filter_cong refl sieved_final) auto
  with c have c': "sieve_count 2 limit r 0
      = Some (int (length (filter no_small_divisor [2..limit])))" by simp
  have "\<not> limit < 2" using assms(1) by simp
  then show ?thesis
    by (simp only: prime_count_optimized_def w v s1 s0 r c' Option.bind.simps if_False)
qed

text \<open>
  Claim C2. For every \<open>limit\<close> from 0 to 5000, \<^verbatim>\<open>prime_count(limit)\<close> (trial division up to
  the floor of the square root) and \<^verbatim>\<open>prime_count_optimized(limit)\<close> (the sieve) return the
  same count, and both return 0 when \<open>limit < 2\<close>.
\<close>

theorem prime_count_equiv:
  assumes "0 \<le> limit" "limit \<le> 5000"
  shows "prime_count limit = prime_count_optimized limit
       \<and> prime_count limit \<noteq> None
       \<and> (limit < 2 \<longrightarrow> prime_count limit = Some 0 \<and> prime_count_optimized limit = Some 0)"
proof (cases "limit < 2")
  case True
  then show ?thesis by (simp add: prime_count_def prime_count_optimized_def)
next
  case False
  with assms show ?thesis
    by (simp add: prime_count_value prime_count_optimized_value)
qed

lemma floor_sqrt_numeral:
  "floor_sqrt (numeral k)
     = (let r = floor_sqrt (pred_numeral k) in if (r + 1) * (r + 1) \<le> numeral k then r + 1 else r)"
  by (simp add: numeral_eq_Suc)

lemma primes_to_30: "filter no_small_divisor [2..30] = [2, 3, 5, 7, 11, 13, 17, 19, 23, 29]"
proof -
  have "no_small_divisor x \<longleftrightarrow> (\<forall>d\<in>set [2..int (floor_sqrt (nat x))]. \<not> d dvd x)" for x
    by (simp add: no_small_divisor_def)
  then show ?thesis
    by (simp add: floor_sqrt_numeral Let_def del: set_upto)
qed

lemma prime_count_30: "prime_count 30 = Some 10"
proof -
  have "prime_count 30 = Some (int (length (filter no_small_divisor [2..30])))"
    by (rule prime_count_value) simp_all
  then show ?thesis unfolding primes_to_30 by simp
qed

theorem prime_count_equiv_witness:
  "(0::int) \<le> 30 \<and> (30::int) \<le> 5000
   \<and> prime_count 30 = Some 10 \<and> prime_count_optimized 30 = Some 10"
  using prime_count_equiv [of 30] by (simp add: prime_count_30)

end
